theory Spec2Isabelle
  imports Main "HOL-Library.Word" "HOL-Library.Sublist"
begin

unbundle bit_operations_syntax

section \<open>Text, identifiers and regular expressions\<close>

text \<open>
  The scripts read \<^verbatim>\<open>project.pbxproj\<close> into a Python \<^verbatim>\<open>str\<close>, rewrite it with
  \<^verbatim>\<open>re.sub\<close> and write it back. The text is a \<^typ>\<open>string\<close>; its characters are
  code points below 256.
\<close>

abbreviation nl :: char where "nl \<equiv> CHR 0x0A"
abbreviation tab :: char where "tab \<equiv> CHR 0x09"
abbreviation dq :: char where "dq \<equiv> CHR 0x22"

subsection \<open>\<^verbatim>\<open>str(uuid.uuid4()).replace('-', '').upper()[:24]\<close>\<close>

text \<open>
  A UUID is a 128-bit value; \<^verbatim>\<open>str\<close> prints its 32 hexadecimal digits, most
  significant first, in five groups joined by dashes. Removing the dashes and upper-casing
  leaves the 32 digits; the scripts keep 24 of them and then use \<^verbatim>\<open>[:6]\<close>.
  The random draw itself is a parameter of the model.
\<close>

type_synonym uuid = "128 word"

definition hexdigit :: "nat \<Rightarrow> char" where
  "hexdigit n = ''0123456789ABCDEF'' ! (n mod 16)"

definition uuid_upper :: "uuid \<Rightarrow> string" where
  "uuid_upper u = map (\<lambda>i. hexdigit (unat (drop_bit (4 * (31 - i)) u AND 15))) [0..<32]"

definition uuid24 :: "uuid \<Rightarrow> string" where
  "uuid24 u = take 24 (uuid_upper u)"

subsection \<open>The regular expressions of the scripts\<close>

text \<open>
  Every pattern of the five scripts is a sequence of literal texts, \<^verbatim>\<open>\s*\<close> and
  negated one-character classes \<^verbatim>\<open>[^c]+\<close>. Both repetitions are greedy and give
  characters back one at a time when the rest of the pattern fails.
\<close>

datatype tok = Lit string | Spaces | NotChar char

text \<open>\<^verbatim>\<open>\s\<close> in a \<^verbatim>\<open>str\<close> pattern: the characters for which \<^verbatim>\<open>str.isspace\<close> holds.\<close>

definition is_space :: "char \<Rightarrow> bool" where
  "is_space c = (c \<in> set [CHR 0x09, CHR 0x0A, CHR 0x0B, CHR 0x0C, CHR 0x0D,
                           CHR 0x1C, CHR 0x1D, CHR 0x1E, CHR 0x1F, CHR 0x20,
                           CHR 0x85, CHR 0xA0])"

text \<open>
  \<open>backtrack k s lo j\<close>: a greedy repetition has consumed \<open>j\<close> characters of \<open>s\<close>;
  try the rest of the pattern \<open>k\<close> there, then with \<open>j - 1\<close> characters, down to \<open>lo\<close>.
  The result is the length of the whole match.
\<close>

fun backtrack :: "(string \<Rightarrow> nat option) \<Rightarrow> string \<Rightarrow> nat \<Rightarrow> nat \<Rightarrow> nat option" where
  "backtrack k s lo 0 = (if 0 < lo then None else k s)"
| "backtrack k s lo (Suc j) =
     (if Suc j < lo then None
      else case k (drop (Suc j) s) of
             Some n \<Rightarrow> Some (Suc j + n)
           | None \<Rightarrow> backtrack k s lo j)"

text \<open>\<open>re_match p s\<close>: the length of the match of \<open>p\<close> at the start of \<open>s\<close>, if any.\<close>

primrec re_match :: "tok list \<Rightarrow> string \<Rightarrow> nat option" where
  "re_match [] = (\<lambda>s. Some 0)"
| "re_match (t # ts) = (\<lambda>s.
     case t of
       Lit l \<Rightarrow> (if prefix l s
                 then map_option (\<lambda>n. length l + n) (re_match ts (drop (length l) s))
                 else None)
     | Spaces \<Rightarrow> backtrack (re_match ts) s 0 (length (takeWhile is_space s))
     | NotChar c \<Rightarrow> backtrack (re_match ts) s 1 (length (takeWhile (\<lambda>x. x \<noteq> c) s)))"

text \<open>
  A replacement template: \<open>Matched k\<close> is the matched text without its last \<open>k\<close>
  characters. \<^verbatim>\<open>\1\<close> is \<open>Matched 0\<close> where group 1 encloses the whole pattern, and
  \<^verbatim>\<open>\1\2\<close> is \<open>Matched 2\<close> in the two patterns that end with \<^verbatim>\<open>\);\<close> after their
  groups. \<open>Txt\<close> is text copied as it is (with \<^verbatim>\<open>\n\<close> and \<^verbatim>\<open>\t\<close> already read as
  line feed and tab).
\<close>

datatype piece = Matched nat | Txt string

fun expand :: "piece list \<Rightarrow> string \<Rightarrow> string" where
  "expand [] g = []"
| "expand (Matched k # ps) g = take (length g - k) g @ expand ps g"
| "expand (Txt t # ps) g = t @ expand ps g"

text \<open>
  \<^verbatim>\<open>re.sub\<close>: scan from the left; where the pattern matches, emit the expanded template
  and go on behind the match; elsewhere copy one character. An empty match emits the
  template and copies the next character.
\<close>

fun re_sub :: "tok list \<Rightarrow> piece list \<Rightarrow> string \<Rightarrow> string" where
  "re_sub p r [] = (case re_match p [] of Some n \<Rightarrow> expand r [] | None \<Rightarrow> [])"
| "re_sub p r (c # cs) =
     (case re_match p (c # cs) of
        None \<Rightarrow> c # re_sub p r cs
      | Some 0 \<Rightarrow> expand r [] @ c # re_sub p r cs
      | Some (Suc n) \<Rightarrow> expand r (c # take n cs) @ re_sub p r (drop n cs))"

text \<open>The pattern matches somewhere in the text (\<^verbatim>\<open>re.search\<close> finds a match).\<close>

definition re_search :: "tok list \<Rightarrow> string \<Rightarrow> bool" where
  "re_search p s = list_ex (\<lambda>i. re_match p (drop i s) \<noteq> None) [0..<Suc (length s)]"

section \<open>The five scripts\<close>

subsection \<open>Patterns shared by the scripts\<close>

definition file_ref_pattern :: "tok list" where
  "file_ref_pattern = [Lit ''/* End PBXFileReference section */'']"

definition build_file_pattern :: "tok list" where
  "build_file_pattern = [Lit ''/* End PBXBuildFile section */'']"

definition sources_pattern :: "tok list" where
  "sources_pattern =
     [Lit ''1A000064 /* Sources */ = {'', Spaces, Lit ''isa = PBXSourcesBuildPhase;'', Spaces,
      Lit ''buildActionMask = 2147483647;'', Spaces, Lit ''files = ('', Spaces,
      Lit ''1A000003 /* ContentView.swift in Sources */,'']"

text \<open>The pattern on the build-file record \<^verbatim>\<open>1A000019\<close> (add_pipeline.py:35,
  add_files_to_project.py:44,45,66,67).\<close>

definition build_record_pattern :: "tok list" where
  "build_record_pattern =
     [Lit ''1A000019 /* '', NotChar (CHR ''*''), Lit '' */ = {isa = PBXBuildFile; fileRef = '',
      NotChar (CHR ''}''), Lit '';};'']"

subsection \<open>add_cost_metrics.py\<close>

definition services_group_pattern :: "tok list" where
  "services_group_pattern =
     [Lit ''1A000055 /* Services */ = {'', Spaces, Lit ''isa = PBXGroup;'', Spaces,
      Lit ''children = ('', Spaces, Lit ''1A00007D /* StoreManager.swift */,'']"

definition add_cost_metrics :: "uuid \<Rightarrow> uuid \<Rightarrow> string \<Rightarrow> string" where
  "add_cost_metrics u1 u2 content0 =
    (let cost_uuid = uuid24 u1;
         cost_build_uuid = uuid24 u2;
         file_ref = [nl, tab, tab] @ ''1A0000'' @ take 6 cost_uuid
           @ '' /* CostMetricsManager.swift */ = {isa = PBXFileReference; lastKnownFileType = sourcecode.swift; path = CostMetricsManager.swift; sourceTree = ''
           @ [dq] @ ''<group>'' @ [dq] @ ''; };'';
         services_replacement =
           [Matched 0, Txt ([nl, tab, tab, tab] @ ''1A0000'' @ take 6 cost_uuid
                             @ '' /* CostMetricsManager.swift */,'')];
         build_file = [nl, tab, tab] @ ''1A0000'' @ take 6 cost_build_uuid
           @ '' /* CostMetricsManager.swift in Sources */ = {isa = PBXBuildFile; fileRef = 1A0000''
           @ take 6 cost_uuid @ '' /* CostMetricsManager.swift */; };'';
         content1 = re_sub services_group_pattern services_replacement content0;
         file_ref_replacement = [Txt (file_ref @ [nl, nl] @ ''/* End PBXFileReference section */'')];
         content2 = re_sub file_ref_pattern file_ref_replacement content1;
         sources_replacement =
           [Matched 0, Txt ([nl, tab, tab, tab] @ ''1A0000'' @ take 6 cost_build_uuid
                             @ '' /* CostMetricsManager.swift in Sources */,'')];
         content3 = re_sub sources_pattern sources_replacement content2;
         build_file_replacement = [Txt (build_file @ [nl, nl] @ ''/* End PBXBuildFile section */'')];
         content4 = re_sub build_file_pattern build_file_replacement content3
     in content4)"

subsection \<open>add_splash_screen.py\<close>

definition components_group_pattern :: "tok list" where
  "components_group_pattern =
     [Lit ''1A000053 /* Components */ = {'', Spaces, Lit ''isa = PBXGroup;'', Spaces,
      Lit ''children = ('', Spaces, Lit ''1A000035 /* SceneCard.swift */,'']"

definition add_splash_screen :: "uuid \<Rightarrow> uuid \<Rightarrow> string \<Rightarrow> string" where
  "add_splash_screen u1 u2 content0 =
    (let splash_uuid = uuid24 u1;
         splash_build_uuid = uuid24 u2;
         file_ref = [nl, tab, tab] @ ''1A0000'' @ take 6 splash_uuid
           @ '' /* SplashScreenView.swift */ = {isa = PBXFileReference; lastKnownFileType = sourcecode.swift; path = ''
           @ [dq] @ ''DirectorStudio/Components/SplashScreenView.swift'' @ [dq]
           @ ''; sourceTree = '' @ [dq] @ ''<group>'' @ [dq] @ ''; };'';
         components_replacement =
           [Matched 0, Txt ([nl, tab, tab, tab] @ ''1A0000'' @ take 6 splash_uuid
                             @ '' /* SplashScreenView.swift */,'')];
         build_file = [nl, tab, tab] @ ''1A0000'' @ take 6 splash_build_uuid
           @ '' /* SplashScreenView.swift in Sources */ = {isa = PBXBuildFile; fileRef = 1A0000''
           @ take 6 splash_uuid @ '' /* SplashScreenView.swift */; };'';
         content1 = re_sub components_group_pattern components_replacement content0;
         file_ref_replacement = [Txt (file_ref @ [nl, nl] @ ''/* End PBXFileReference section */'')];
         content2 = re_sub file_ref_pattern file_ref_replacement content1;
         sources_replacement =
           [Matched 0, Txt ([nl, tab, tab, tab] @ ''1A0000'' @ take 6 splash_build_uuid
                             @ '' /* SplashScreenView.swift in Sources */,'')];
         content3 = re_sub sources_pattern sources_replacement content2;
         build_file_replacement = [Txt (build_file @ [nl, nl] @ ''/* End PBXBuildFile section */'')];
         content4 = re_sub build_file_pattern build_file_replacement content3
     in content4)"

subsection \<open>add_pipeline.py\<close>

definition modules_group_pattern_56 :: "tok list" where
  "modules_group_pattern_56 =
     [Lit ''1A000056 /* Modules */ = {'', Spaces, Lit ''isa = PBXGroup;'', Spaces,
      Lit ''children = ('', Spaces, Lit ''1A00007F /* ContinuityEngine.swift */,'']"

definition add_pipeline :: "uuid \<Rightarrow> uuid \<Rightarrow> string \<Rightarrow> string" where
  "add_pipeline u1 u2 content0 =
    (let pipeline_uuid = uuid24 u1;
         pipeline_build_uuid = uuid24 u2;
         file_ref = [nl, tab, tab] @ ''1A0000'' @ take 6 pipeline_uuid
           @ '' /* DirectorStudioPipeline.swift */ = {isa = PBXFileReference; lastKnownFileType = sourcecode.swift; path = DirectorStudioPipeline.swift; sourceTree = ''
           @ [dq] @ ''<group>'' @ [dq] @ ''; };'';
         modules_replacement =
           [Matched 0, Txt ([nl, tab, tab, tab] @ ''1A0000'' @ take 6 pipeline_uuid
                             @ '' /* DirectorStudioPipeline.swift */,'')];
         build_file = [nl, tab, tab] @ ''1A0000'' @ take 6 pipeline_build_uuid
           @ '' /* DirectorStudioPipeline.swift in Sources */ = {isa = PBXBuildFile; fileRef = 1A0000''
           @ take 6 pipeline_uuid @ '' /* DirectorStudioPipeline.swift */; };'';
         content1 = re_sub modules_group_pattern_56 modules_replacement content0;
         file_ref_replacement = [Txt (file_ref @ [nl, nl] @ ''/* End PBXFileReference section */'')];
         content2 = re_sub file_ref_pattern file_ref_replacement content1;
         sources_replacement = [Matched 0, Txt build_file];
         content3 = re_sub build_record_pattern sources_replacement content2
     in content3)"

subsection \<open>add_to_build_phase.py\<close>

definition build_phase_files :: "(string \<times> string) list" where
  "build_phase_files =
     [(''Models.swift'', ''1A00002835AC''),
      (''DirectorStudioPipeline.swift'', ''1A0000283F20''),
      (''StoryAnalyzerModule.swift'', ''1A0000E67026''),
      (''PromptSegmentationModule.swift'', ''1A0000C6ABE6''),
      (''PromptPackagingModule.swift'', ''1A0000760A32'')]"

text \<open>One round of the loop (add_to_build_phase.py:20-38), for one file and one drawn UUID.\<close>

definition build_phase_step :: "uuid \<Rightarrow> string \<times> string \<Rightarrow> string \<Rightarrow> string" where
  "build_phase_step u f content0 =
    (let file_name = fst f; file_ref_id = snd f;
         build_uuid = uuid24 u;
         build_file = [nl, tab, tab] @ ''1A0000'' @ take 6 build_uuid @ '' /* '' @ file_name
           @ '' in Sources */ = {isa = PBXBuildFile; fileRef = '' @ file_ref_id
           @ '' /* '' @ file_name @ '' */; };'';
         sources_replacement =
           [Matched 0, Txt ([nl, tab, tab, tab] @ ''1A0000'' @ take 6 build_uuid
                             @ '' /* '' @ file_name @ '' in Sources */,'')];
         content1 = re_sub sources_pattern sources_replacement content0;
         build_file_replacement = [Txt (build_file @ [nl, nl] @ ''/* End PBXBuildFile section */'')];
         content2 = re_sub build_file_pattern build_file_replacement content1
     in content2)"

text \<open>The loop: the \<open>i\<close>-th round uses the \<open>i\<close>-th UUID drawn, \<open>g i\<close>.\<close>

fun build_phase_loop :: "(nat \<Rightarrow> uuid) \<Rightarrow> nat \<Rightarrow> (string \<times> string) list \<Rightarrow> string \<Rightarrow> string" where
  "build_phase_loop g i [] content = content"
| "build_phase_loop g i (f # fs) content =
     build_phase_loop g (Suc i) fs (build_phase_step (g i) f content)"

definition add_to_build_phase :: "(nat \<Rightarrow> uuid) \<Rightarrow> string \<Rightarrow> string" where
  "add_to_build_phase g content = build_phase_loop g 0 build_phase_files content"

subsection \<open>add_files_to_project.py\<close>

definition files_to_add :: "string list" where
  "files_to_add =
     [''DirectorStudio/Core/Models.swift'',
      ''DirectorStudio/Modules/StoryAnalyzerModule.swift'',
      ''DirectorStudio/Modules/PromptSegmentationModule.swift'',
      ''DirectorStudio/Modules/PromptPackagingModule.swift'']"

definition core_group_pattern :: "tok list" where
  "core_group_pattern =
     [Lit ''1A000052 /* Core */ = {'', NotChar (CHR ''}''), Lit ''children = ('',
      NotChar (CHR '')''), NotChar (CHR '')''), Lit '');'']"

definition modules_group_pattern :: "tok list" where
  "modules_group_pattern =
     [Lit ''1A000053 /* Modules */ = {'', NotChar (CHR ''}''), Lit ''children = ('',
      NotChar (CHR '')''), NotChar (CHR '')''), Lit '');'']"

text \<open>\<^verbatim>\<open>file_path.split('/')[-1]\<close>: the text behind the last slash.\<close>

definition last_component :: "string \<Rightarrow> string" where
  "last_component file_path = rev (takeWhile (\<lambda>c. c \<noteq> CHR ''/'') (rev file_path))"

text \<open>The file-reference record of a module file (add_files_to_project.py:54-55).\<close>

definition module_file_ref_section :: "string \<Rightarrow> string \<Rightarrow> string" where
  "module_file_ref_section module_uuid file_path =
    (let file_name = last_component file_path
     in [nl, tab, tab] @ ''1A0000'' @ take 6 module_uuid @ '' /* '' @ file_name
        @ '' */ = {isa = PBXFileReference; lastKnownFileType = sourcecode.swift; path = ''
        @ file_name @ ''; sourceTree = '' @ [dq] @ ''<group>'' @ [dq] @ ''; };'')"

text \<open>One round of the loop over the module files (add_files_to_project.py:48-67).\<close>

definition module_step :: "uuid \<Rightarrow> uuid \<Rightarrow> string \<Rightarrow> string \<Rightarrow> string" where
  "module_step u1 u2 file_path content0 =
    (let file_name = last_component file_path;
         module_uuid = uuid24 u1;
         module_build_uuid = uuid24 u2;
         file_ref_section = module_file_ref_section module_uuid file_path;
         modules_replacement =
           [Matched 2, Txt ([tab, tab] @ ''1A0000'' @ take 6 module_uuid @ '' /* '' @ file_name
                             @ '' */,'' @ [nl, tab, tab] @ '');'')];
         build_phase_section = [nl, tab, tab] @ ''1A0000'' @ take 6 module_build_uuid
           @ '' /* '' @ file_name @ '' in Sources */ = {isa = PBXBuildFile; fileRef = 1A0000''
           @ take 6 module_uuid @ '' /* '' @ file_name @ '' */; };'';
         content1 = re_sub modules_group_pattern modules_replacement content0;
         content2 = re_sub build_record_pattern [Matched 0, Txt build_phase_section] content1;
         content3 = re_sub build_record_pattern [Matched 0, Txt file_ref_section] content2
     in content3)"

text \<open>Round \<open>i\<close> (from 1) draws the UUIDs number \<open>2 * i\<close> and \<open>2 * i + 1\<close>.\<close>

fun module_loop :: "(nat \<Rightarrow> uuid) \<Rightarrow> nat \<Rightarrow> string list \<Rightarrow> string \<Rightarrow> string" where
  "module_loop g i [] content = content"
| "module_loop g i (file_path # rest) content =
     module_loop g (Suc i) rest (module_step (g (2 * i)) (g (2 * i + 1)) file_path content)"

definition add_files_to_project :: "(nat \<Rightarrow> uuid) \<Rightarrow> string \<Rightarrow> string" where
  "add_files_to_project g content0 =
    (let models_uuid = uuid24 (g 0);
         models_build_uuid = uuid24 (g 1);
         file_ref_section = [nl, tab, tab] @ ''1A0000'' @ take 6 models_uuid
           @ '' /* Models.swift */ = {isa = PBXFileReference; lastKnownFileType = sourcecode.swift; path = Models.swift; sourceTree = ''
           @ [dq] @ ''<group>'' @ [dq] @ ''; };'';
         core_replacement =
           [Matched 2, Txt ([tab, tab] @ ''1A0000'' @ take 6 models_uuid @ '' /* Models.swift */,''
                             @ [nl, tab, tab] @ '');'')];
         build_phase_section = [nl, tab, tab] @ ''1A0000'' @ take 6 models_build_uuid
           @ '' /* Models.swift in Sources */ = {isa = PBXBuildFile; fileRef = 1A0000''
           @ take 6 models_uuid @ '' /* Models.swift */; };'';
         content1 = re_sub core_group_pattern core_replacement content0;
         content2 = re_sub build_record_pattern [Matched 0, Txt build_phase_section] content1;
         content3 = re_sub build_record_pattern [Matched 0, Txt file_ref_section] content2
     in module_loop g 1 (tl files_to_add) content3)"

subsection \<open>Reading and writing the project file\<close>

text \<open>
  Each script opens the project file, reads it whole, computes the new text and
  overwrites the file. The file system is a map from paths to contents; opening a
  missing file raises.
\<close>

type_synonym fs = "string \<rightharpoonup> string"

datatype error = FileNotFoundError

definition project_file :: string where
  "project_file = ''DirectorStudio.xcodeproj/project.pbxproj''"

definition rewrite_project :: "(string \<Rightarrow> string) \<Rightarrow> fs \<Rightarrow> error + fs" where
  "rewrite_project f disk =
     (case disk project_file of
        None \<Rightarrow> Inl FileNotFoundError
      | Some content \<Rightarrow> Inr (disk(project_file \<mapsto> f content)))"

definition run_add_cost_metrics :: "(nat \<Rightarrow> uuid) \<Rightarrow> fs \<Rightarrow> error + fs" where
  "run_add_cost_metrics g = rewrite_project (add_cost_metrics (g 0) (g 1))"

definition run_add_splash_screen :: "(nat \<Rightarrow> uuid) \<Rightarrow> fs \<Rightarrow> error + fs" where
  "run_add_splash_screen g = rewrite_project (add_splash_screen (g 0) (g 1))"

definition run_add_pipeline :: "(nat \<Rightarrow> uuid) \<Rightarrow> fs \<Rightarrow> error + fs" where
  "run_add_pipeline g = rewrite_project (add_pipeline (g 0) (g 1))"

definition run_add_to_build_phase :: "(nat \<Rightarrow> uuid) \<Rightarrow> fs \<Rightarrow> error + fs" where
  "run_add_to_build_phase g = rewrite_project (add_to_build_phase g)"

definition run_add_files_to_project :: "(nat \<Rightarrow> uuid) \<Rightarrow> fs \<Rightarrow> error + fs" where
  "run_add_files_to_project g = rewrite_project (add_files_to_project g)"

section \<open>Notions used in the proofs\<close>

text \<open>Every match is non-empty and its replacement is longer than the match.\<close>

definition grows :: "tok list \<Rightarrow> piece list \<Rightarrow> bool" where
  "grows p r \<longleftrightarrow> (\<forall>s n. re_match p s = Some n \<longrightarrow> 0 < n \<and> n < length (expand r (take n s)))"

text \<open>A script is a sequence of substitutions applied one after the other.\<close>

fun apply_subs :: "(tok list \<times> piece list) list \<Rightarrow> string \<Rightarrow> string" where
  "apply_subs [] s = s"
| "apply_subs (pr # prs) s = apply_subs prs (re_sub (fst pr) (snd pr) s)"

text \<open>A pattern that begins with a non-empty literal text.\<close>

definition group_pat :: "tok list \<Rightarrow> bool" where
  "group_pat p \<longleftrightarrow> (\<exists>c l ts. p = Lit (c # l) # ts)"

text \<open>The scripts draw UUIDs; only the first six digits of each reach the text.\<close>

definition same_ids :: "nat \<Rightarrow> (nat \<Rightarrow> uuid) \<Rightarrow> (nat \<Rightarrow> uuid) \<Rightarrow> bool" where
  "same_ids n g1 g2 \<longleftrightarrow> (\<forall>i<n. take 6 (uuid24 (g1 i)) = take 6 (uuid24 (g2 i)))"

text \<open>What a run leaves in the project file, or the error it raised.\<close>

definition written :: "error + fs \<Rightarrow> error + string option" where
  "written res = map_sum id (\<lambda>disk. disk project_file) res"

text \<open>The texts a pattern describes.\<close>

fun in_lang :: "tok list \<Rightarrow> string \<Rightarrow> bool" where
  "in_lang [] m \<longleftrightarrow> m = []"
| "in_lang (Lit l # ts) m \<longleftrightarrow> (\<exists>m'. m = l @ m' \<and> in_lang ts m')"
| "in_lang (Spaces # ts) m \<longleftrightarrow> (\<exists>w m'. m = w @ m' \<and> (\<forall>c\<in>set w. is_space c) \<and> in_lang ts m')"
| "in_lang (NotChar c # ts) m \<longleftrightarrow> (\<exists>w m'. m = w @ m' \<and> w \<noteq> [] \<and> c \<notin> set w \<and> in_lang ts m')"

text \<open>The four bits of a UUID from bit \<open>k\<close> on: one hexadecimal digit.\<close>

definition nibble :: "uuid \<Rightarrow> nat \<Rightarrow> nat" where
  "nibble u k = unat (drop_bit k u AND 15)"

text \<open>Every match of the pattern is non-empty and ends with the character \<open>e\<close>.\<close>

definition ends_with :: "tok list \<Rightarrow> char \<Rightarrow> bool" where
  "ends_with p e \<longleftrightarrow> (\<forall>s n. re_match p s = Some n \<longrightarrow> 0 < n \<and> s ! (n - 1) = e)"

text \<open>No occurrence of \<open>S\<close> begins strictly inside \<open>X\<close>, whatever follows \<open>X\<close>.\<close>

definition no_cut :: "string \<Rightarrow> string \<Rightarrow> bool" where
  "no_cut S X \<longleftrightarrow>
     list_all (\<lambda>i. \<not> prefix S (drop i X) \<and> \<not> prefix (drop i X) S) [1..<length X]"



definition brace_free :: "string \<Rightarrow> bool" where
  "brace_free s \<longleftrightarrow> CHR ''{'' \<notin> set s \<and> CHR ''}'' \<notin> set s"


section \<open>The texts the scripts insert\<close>

text \<open>
  add_cost_metrics.py and add_splash_screen.py are the same program up to the file's
  name, the text of its \<^verbatim>\<open>path\<close> field and the group pattern. The four inserted
  texts, for the six-digit suffixes \<open>h1\<close> (file reference) and \<open>h2\<close> (build file):
\<close>

definition group_child :: "string \<Rightarrow> string \<Rightarrow> string" where
  "group_child h1 name = [nl, tab, tab, tab] @ ''1A0000'' @ h1 @ '' /* '' @ name @ '' */,''"

definition file_ref_record :: "string \<Rightarrow> string \<Rightarrow> string \<Rightarrow> string" where
  "file_ref_record h1 name path_field =
     [nl, tab, tab] @ ''1A0000'' @ h1 @ '' /* '' @ name
     @ '' */ = {isa = PBXFileReference; lastKnownFileType = sourcecode.swift; path = ''
     @ path_field @ ''; sourceTree = '' @ [dq] @ ''<group>'' @ [dq] @ ''; };''"

definition sources_child :: "string \<Rightarrow> string \<Rightarrow> string" where
  "sources_child h2 name =
     [nl, tab, tab, tab] @ ''1A0000'' @ h2 @ '' /* '' @ name @ '' in Sources */,''"

definition build_file_record :: "string \<Rightarrow> string \<Rightarrow> string \<Rightarrow> string" where
  "build_file_record h2 file_ref_id name =
     [nl, tab, tab] @ ''1A0000'' @ h2 @ '' /* '' @ name
     @ '' in Sources */ = {isa = PBXBuildFile; fileRef = '' @ file_ref_id
     @ '' /* '' @ name @ '' */; };''"

definition patch_subs ::
  "string \<Rightarrow> string \<Rightarrow> tok list \<Rightarrow> string \<Rightarrow> string \<Rightarrow> (tok list \<times> piece list) list" where
  "patch_subs name path_field group_pattern h1 h2 =
     [(group_pattern, [Matched 0, Txt (group_child h1 name)]),
      (file_ref_pattern,
         [Txt (file_ref_record h1 name path_field @ [nl, nl] @ ''/* End PBXFileReference section */'')]),
      (sources_pattern, [Matched 0, Txt (sources_child h2 name)]),
      (build_file_pattern,
         [Txt (build_file_record h2 (''1A0000'' @ h1) name @ [nl, nl] @ ''/* End PBXBuildFile section */'')])]"

definition patch_file ::
  "string \<Rightarrow> string \<Rightarrow> tok list \<Rightarrow> uuid \<Rightarrow> uuid \<Rightarrow> string \<Rightarrow> string" where
  "patch_file name path_field group_pattern u1 u2 content =
     apply_subs (patch_subs name path_field group_pattern (take 6 (uuid24 u1)) (take 6 (uuid24 u2)))
       content"

text \<open>
  Patterns of literal texts and \<^verbatim>\<open>\s*\<close> in which a literal text that begins with a
  character other than white space follows every \<^verbatim>\<open>\s*\<close>.
\<close>

fun simple_pat :: "tok list \<Rightarrow> bool" where
  "simple_pat [] \<longleftrightarrow> True"
| "simple_pat (Lit l # ts) \<longleftrightarrow> simple_pat ts"
| "simple_pat (Spaces # Lit (c # l) # ts) \<longleftrightarrow> \<not> is_space c \<and> simple_pat ts"
| "simple_pat (t # ts) \<longleftrightarrow> False"

text \<open>A match stays a match whatever text follows it.\<close>

definition local_pat :: "tok list \<Rightarrow> bool" where
  "local_pat p \<longleftrightarrow> (\<forall>s n x. re_match p s = Some n \<longrightarrow> re_match p (take n s @ x) = Some n)"


section \<open>Reading a record back\<close>






text \<open>
  No occurrence of the text \<open>l\<close> begins inside \<open>a\<close>, whatever follows \<open>a\<close>:
  at no position of \<open>a\<close> does \<open>l\<close> stand, nor a beginning of \<open>l\<close> that reaches
  the end of \<open>a\<close>.
\<close>

definition nostart :: "string \<Rightarrow> string \<Rightarrow> bool" where
  "nostart l a \<longleftrightarrow>
     list_all (\<lambda>i. \<not> prefix l (drop i a) \<and> \<not> prefix (drop i a) l) [0..<length a]"

text \<open>No anchor of a script with the group pattern's first text \<open>lg\<close> begins in \<open>a\<close>.\<close>

definition anchor_free :: "string \<Rightarrow> string \<Rightarrow> bool" where
  "anchor_free lg a \<longleftrightarrow>
     nostart lg a \<and> nostart ''/* End PBXFileReference section */'' a
     \<and> nostart ''1A000064 /* Sources */ = {'' a \<and> nostart ''/* End PBXBuildFile section */'' a"

section \<open>A minimal manifest\<close>

text \<open>
  The scenario of the spec (section 8): a manifest with empty \<^verbatim>\<open>PBXBuildFile\<close> and
  \<^verbatim>\<open>PBXFileReference\<close> sections, a group with one child and a Sources build phase
  with one file. The group and the two entries are those add_splash_screen.py is anchored
  on; the sections stand in the order in which Xcode writes them.
\<close>

definition manifest_head :: string where
  "manifest_head = ''/* Begin PBXBuildFile section */'' @ [nl]"

definition manifest_refs :: string where
  "manifest_refs = ''/* End PBXBuildFile section */'' @ [nl, nl]
     @ ''/* Begin PBXFileReference section */'' @ [nl]"

definition manifest_group_open :: string where
  "manifest_group_open = ''/* End PBXFileReference section */'' @ [nl, nl]
     @ ''/* Begin PBXGroup section */'' @ [nl]
     @ [tab, tab] @ ''1A000053 /* Components */ = {'' @ [nl]
     @ [tab, tab, tab] @ ''isa = PBXGroup;'' @ [nl]
     @ [tab, tab, tab] @ ''children = ('' @ [nl]
     @ [tab, tab, tab, tab]"

definition manifest_group :: string where
  "manifest_group = manifest_group_open @ ''1A000035 /* SceneCard.swift */,''"

definition manifest_sources :: string where
  "manifest_sources = [nl]
     @ [tab, tab, tab] @ '');'' @ [nl]
     @ [tab, tab] @ ''};'' @ [nl]
     @ ''/* End PBXGroup section */'' @ [nl, nl]
     @ ''/* Begin PBXSourcesBuildPhase section */'' @ [nl]
     @ [tab, tab] @ ''1A000064 /* Sources */ = {'' @ [nl]
     @ [tab, tab, tab] @ ''isa = PBXSourcesBuildPhase;'' @ [nl]
     @ [tab, tab, tab] @ ''buildActionMask = 2147483647;'' @ [nl]
     @ [tab, tab, tab] @ ''files = ('' @ [nl]
     @ [tab, tab, tab, tab] @ ''1A000003 /* ContentView.swift in Sources */,''"

definition manifest_tail :: string where
  "manifest_tail = [nl]
     @ [tab, tab, tab] @ '');'' @ [nl]
     @ [tab, tab] @ ''};'' @ [nl]
     @ ''/* End PBXSourcesBuildPhase section */'' @ [nl]"

definition minimal_manifest :: string where
  "minimal_manifest =
     manifest_head @ manifest_refs @ manifest_group @ manifest_sources @ manifest_tail"

text \<open>The pieces of the manifest between the anchors, and the two anchor texts.\<close>

definition gap_refs :: string where
  "gap_refs = [nl] @ ''/* Begin PBXFileReference section */'' @ [nl]"

definition gap_group :: string where
  "gap_group = [nl] @ ''/* Begin PBXGroup section */'' @ [nl] @ [tab, tab]"

definition group_anchor :: string where
  "group_anchor = ''1A000053 /* Components */ = {'' @ [nl]
     @ [tab, tab, tab] @ ''isa = PBXGroup;'' @ [nl]
     @ [tab, tab, tab] @ ''children = ('' @ [nl]
     @ [tab, tab, tab, tab] @ ''1A000035 /* SceneCard.swift */,''"

definition gap_sources :: string where
  "gap_sources = [nl]
     @ [tab, tab, tab] @ '');'' @ [nl]
     @ [tab, tab] @ ''};'' @ [nl]
     @ ''/* End PBXGroup section */'' @ [nl, nl]
     @ ''/* Begin PBXSourcesBuildPhase section */'' @ [nl]
     @ [tab, tab]"

definition sources_anchor :: string where
  "sources_anchor = ''1A000064 /* Sources */ = {'' @ [nl]
     @ [tab, tab, tab] @ ''isa = PBXSourcesBuildPhase;'' @ [nl]
     @ [tab, tab, tab] @ ''buildActionMask = 2147483647;'' @ [nl]
     @ [tab, tab, tab] @ ''files = ('' @ [nl]
     @ [tab, tab, tab, tab] @ ''1A000003 /* ContentView.swift in Sources */,''"

section \<open>Matching and substitution\<close>


lemma backtrack_SomeD:
  "backtrack k s lo j = Some n \<Longrightarrow> \<exists>i m. lo \<le> i \<and> i \<le> j \<and> k (drop i s) = Some m \<and> n = i + m"
proof (induction j)
  case 0
  then show ?case by (auto split: if_splits)
next
  case (Suc j)
  show ?case
  proof (cases "k (drop (Suc j) s)")
    case None
    with Suc.prems have "backtrack k s lo j = Some n" by (simp split: if_splits)
    from Suc.IH [OF this] show ?thesis by (metis le_Suc_eq)
  next
    case (Some m)
    with Suc.prems have "lo \<le> Suc j" "n = Suc j + m" by (auto split: if_splits)
    with Some show ?thesis by blast
  qed
qed

lemma re_match_le: "re_match p s = Some n \<Longrightarrow> n \<le> length s"
proof (induction p arbitrary: s n)
  case Nil
  then show ?case by simp
next
  case (Cons t ts)
  show ?case
  proof (cases t)
    case (Lit l)
    with Cons.prems obtain m where pl: "prefix l s" and m: "re_match ts (drop (length l) s) = Some m"
      and n: "n = length l + m" by (auto split: if_splits)
    from Cons.IH [OF m] have "m \<le> length s - length l" by simp
    moreover from pl have "length l \<le> length s" by (rule prefix_length_le)
    ultimately show ?thesis using n by simp
  next
    case Spaces
    with Cons.prems have "backtrack (re_match ts) s 0 (length (takeWhile is_space s)) = Some n" by simp
    from backtrack_SomeD [OF this] obtain i m where
      i: "i \<le> length (takeWhile is_space s)" and m: "re_match ts (drop i s) = Some m" and n: "n = i + m"
      by blast
    from Cons.IH [OF m] have "m \<le> length s - i" by simp
    moreover have "i \<le> length s" using i length_takeWhile_le [of is_space s] by simp
    ultimately show ?thesis using n by simp
  next
    case (NotChar c)
    with Cons.prems have "backtrack (re_match ts) s 1 (length (takeWhile (\<lambda>x. x \<noteq> c) s)) = Some n" by simp
    from backtrack_SomeD [OF this] obtain i m where
      i: "i \<le> length (takeWhile (\<lambda>x. x \<noteq> c) s)" and m: "re_match ts (drop i s) = Some m" and n: "n = i + m"
      by blast
    from Cons.IH [OF m] have "m \<le> length s - i" by simp
    moreover have "i \<le> length s" using i length_takeWhile_le [of "\<lambda>x. x \<noteq> c" s] by simp
    ultimately show ?thesis using n by simp
  qed
qed

lemma re_match_Lit_SomeD:
  "re_match (Lit l # ts) s = Some n \<Longrightarrow> prefix l s \<and> length l \<le> n"
  by (auto split: if_splits)

lemma re_search_iff: "re_search p s \<longleftrightarrow> (\<exists>i\<le>length s. re_match p (drop i s) \<noteq> None)"
  unfolding re_search_def list_ex_iff set_upt
  by (metis atLeastLessThan_iff less_Suc_eq_le zero_le)

lemma re_search_Nil: "re_search p [] \<longleftrightarrow> re_match p [] \<noteq> None"
  by (simp add: re_search_iff)

lemma re_search_Cons: "re_search p (c # cs) \<longleftrightarrow> re_match p (c # cs) \<noteq> None \<or> re_search p cs"
proof -
  have "(\<exists>i\<le>Suc (length cs). re_match p (drop i (c # cs)) \<noteq> None)
      \<longleftrightarrow> re_match p (c # cs) \<noteq> None \<or> (\<exists>i\<le>length cs. re_match p (drop i cs) \<noteq> None)"
    (is "?L \<longleftrightarrow> ?R")
  proof
    assume ?L
    then obtain i where i: "i \<le> Suc (length cs)" "re_match p (drop i (c # cs)) \<noteq> None" by blast
    show ?R
    proof (cases i)
      case 0 with i show ?thesis by simp
    next
      case (Suc j) with i show ?thesis by auto
    qed
  next
    assume ?R
    then show ?L
    proof
      assume "re_match p (c # cs) \<noteq> None"
      then have "re_match p (drop 0 (c # cs)) \<noteq> None" by simp
      then show ?L by blast
    next
      assume "\<exists>i\<le>length cs. re_match p (drop i cs) \<noteq> None"
      then obtain i where "i \<le> length cs" "re_match p (drop i cs) \<noteq> None" by blast
      then have "Suc i \<le> Suc (length cs)" "re_match p (drop (Suc i) (c # cs)) \<noteq> None" by simp_all
      then show ?L by blast
    qed
  qed
  then show ?thesis by (simp add: re_search_iff)
qed

lemma re_sub_no_match: "\<not> re_search p s \<Longrightarrow> re_sub p r s = s"
  by (induction s) (auto simp: re_search_Nil re_search_Cons)

lemma re_sub_length_le: "grows p r \<Longrightarrow> length s \<le> length (re_sub p r s)"
proof (induction p r s rule: re_sub.induct)
  case (1 p r)
  then show ?case by simp
next
  case (2 p r c cs)
  show ?case
  proof (cases "re_match p (c # cs)")
    case None
    with 2 show ?thesis by simp
  next
    case (Some n)
    with "2.prems" have "0 < n" and g: "n < length (expand r (take n (c # cs)))"
      by (auto simp: grows_def)
    then obtain m where n: "n = Suc m" by (cases n) auto
    from re_match_le [OF Some] n have "m \<le> length cs" by simp
    moreover from "2.IH"(3) [OF Some n "2.prems"] have "length (drop m cs) \<le> length (re_sub p r (drop m cs))" .
    ultimately show ?thesis using Some n g by simp
  qed
qed

lemma re_sub_length_less: "grows p r \<Longrightarrow> re_search p s \<Longrightarrow> length s < length (re_sub p r s)"
proof (induction p r s rule: re_sub.induct)
  case (1 p r)
  then obtain y where y: "re_match p [] = Some y" by (auto simp: re_search_Nil)
  with 1 have "0 < y" by (simp add: grows_def)
  with re_match_le [OF y] show ?case by simp
next
  case (2 p r c cs)
  show ?case
  proof (cases "re_match p (c # cs)")
    case None
    with 2 show ?thesis by (simp add: re_search_Cons)
  next
    case (Some n)
    with "2.prems" have "0 < n" and g: "n < length (expand r (take n (c # cs)))"
      by (auto simp: grows_def)
    then obtain m where n: "n = Suc m" by (cases n) auto
    from re_match_le [OF Some] n have "m \<le> length cs" by simp
    moreover from re_sub_length_le [OF "2.prems"(1)] have "length (drop m cs) \<le> length (re_sub p r (drop m cs))" .
    ultimately show ?thesis using Some n g by simp
  qed
qed

lemma re_sub_fix_iff: "grows p r \<Longrightarrow> re_sub p r s = s \<longleftrightarrow> \<not> re_search p s"
  using re_sub_length_less [of p r s] re_sub_no_match [of p s r] by fastforce

lemma re_match_drop_search: "i \<le> length s \<Longrightarrow> re_match p (drop i s) \<noteq> None \<Longrightarrow> re_search p s"
  by (auto simp: re_search_iff)



lemma apply_subs_append: "apply_subs (xs @ ys) s = apply_subs ys (apply_subs xs s)"
  by (induction xs arbitrary: s) simp_all





lemma backtrack_None:
  "(\<And>j. lo \<le> j \<Longrightarrow> j \<le> J \<Longrightarrow> k (drop j s) = None) \<Longrightarrow> backtrack k s lo J = None"
  by (induction J) auto

lemma backtrack_unique:
  assumes "lo \<le> j0" "j0 \<le> J" "k (drop j0 s) = Some m"
    and "\<And>j. j0 < j \<Longrightarrow> j \<le> J \<Longrightarrow> k (drop j s) = None"
  shows "backtrack k s lo J = Some (j0 + m)"
  using assms
proof (induction J)
  case 0
  then show ?case by simp
next
  case (Suc J)
  show ?case
  proof (cases "j0 = Suc J")
    case True
    with Suc.prems show ?thesis by simp
  next
    case False
    with Suc.prems have "j0 \<le> J" by simp
    moreover have "k (drop (Suc J) s) = None" using Suc.prems False by simp
    moreover have "\<not> Suc J < lo" using Suc.prems by simp
    ultimately show ?thesis using Suc by simp
  qed
qed

text \<open>The first match: nothing matches before it.\<close>

lemma re_sub_first_match:
  assumes "\<And>i. i < length a \<Longrightarrow> re_match p (drop i (a @ m @ b)) = None"
    and "re_match p (m @ b) = Some (length m)" and "m \<noteq> []"
  shows "re_sub p r (a @ m @ b) = a @ expand r m @ re_sub p r b"
  using assms(1)
proof (induction a)
  case Nil
  from assms(3) obtain c cs where m: "m = c # cs" by (cases m) auto
  with assms(2) show ?case by simp
next
  case (Cons x a)
  from Cons.prems [of 0] have "re_match p (x # a @ m @ b) = None" by simp
  moreover have "re_sub p r (a @ m @ b) = a @ expand r m @ re_sub p r b"
  proof (rule Cons.IH)
    fix i assume "i < length a"
    with Cons.prems [of "Suc i"] show "re_match p (drop i (a @ m @ b)) = None" by simp
  qed
  ultimately show ?case by simp
qed

lemma re_search_first:
  assumes "re_search p s"
  obtains a m b where "s = a @ m @ b" "\<And>i. i < length a \<Longrightarrow> re_match p (drop i s) = None"
    "re_match p (m @ b) = Some (length m)"
proof -
  from assms obtain i0 where "i0 \<le> length s \<and> re_match p (drop i0 s) \<noteq> None"
    by (auto simp: re_search_iff)
  then have ex: "\<exists>i. i \<le> length s \<and> re_match p (drop i s) \<noteq> None" by blast
  define i where "i = (LEAST i. i \<le> length s \<and> re_match p (drop i s) \<noteq> None)"
  have i: "i \<le> length s \<and> re_match p (drop i s) \<noteq> None"
    unfolding i_def using ex by (rule LeastI_ex)
  have least: "re_match p (drop j s) = None" if "j < i" for j
  proof (rule ccontr)
    assume "re_match p (drop j s) \<noteq> None"
    with that i have "j \<le> length s \<and> re_match p (drop j s) \<noteq> None" by simp
    then have "i \<le> j" unfolding i_def by (rule Least_le)
    with that show False by simp
  qed
  from i obtain n where n: "re_match p (drop i s) = Some n" by auto
  from re_match_le [OF n] have nle: "n \<le> length s - i" by simp
  show thesis
  proof (rule that [of "take i s" "take n (drop i s)" "drop n (drop i s)"])
    show "s = take i s @ take n (drop i s) @ drop n (drop i s)"
      by (simp only: append_take_drop_id)
    show "re_match p (drop j s) = None" if "j < length (take i s)" for j
      using that least by simp
    show "re_match p (take n (drop i s) @ drop n (drop i s)) = Some (length (take n (drop i s)))"
      using n nle by (simp only: append_take_drop_id length_take length_drop min_absorb2)
  qed
qed

section \<open>The scripts as sequences of substitutions\<close>


lemma add_cost_metrics_patch:
  "add_cost_metrics u1 u2 s =
   patch_file ''CostMetricsManager.swift'' ''CostMetricsManager.swift'' services_group_pattern u1 u2 s"
  by (simp add: add_cost_metrics_def patch_file_def patch_subs_def Let_def group_child_def
      file_ref_record_def sources_child_def build_file_record_def)





lemma take_add_drop: "take (j + m) s = take j s @ take m (drop j s)"
  by (simp add: take_add)

lemma re_match_sound: "re_match p s = Some n \<Longrightarrow> in_lang p (take n s)"
proof (induction p arbitrary: s n)
  case Nil
  then show ?case by simp
next
  case (Cons t ts)
  show ?case
  proof (cases t)
    case (Lit l)
    with Cons.prems obtain m where pl: "prefix l s" and m: "re_match ts (drop (length l) s) = Some m"
      and n: "n = length l + m" by (auto split: if_splits)
    from pl have "take (length l) s = l" by (auto simp: prefix_def)
    then have "take n s = l @ take m (drop (length l) s)" unfolding n take_add_drop by simp
    with Cons.IH [OF m] Lit show ?thesis by auto
  next
    case Spaces
    with Cons.prems have "backtrack (re_match ts) s 0 (length (takeWhile is_space s)) = Some n" by simp
    from backtrack_SomeD [OF this] obtain i m where
      i: "i \<le> length (takeWhile is_space s)" and m: "re_match ts (drop i s) = Some m" and n: "n = i + m"
      by blast
    have "take i s = take i (takeWhile is_space s)"
      using i by (metis append_take_drop_id takeWhile_dropWhile_id take_append diff_is_0_eq take_0 append_Nil2 order_refl take_all)
    then have "\<forall>c\<in>set (take i s). is_space c"
      by (metis in_set_takeD set_takeWhileD)
    moreover have "take n s = take i s @ take m (drop i s)" unfolding n by (rule take_add_drop)
    ultimately have "in_lang (Spaces # ts) (take n s)"
      unfolding in_lang.simps using Cons.IH [OF m] by blast
    with Spaces show ?thesis by simp
  next
    case (NotChar c)
    with Cons.prems have "backtrack (re_match ts) s 1 (length (takeWhile (\<lambda>x. x \<noteq> c) s)) = Some n" by simp
    from backtrack_SomeD [OF this] obtain i m where i1: "1 \<le> i" and
      i: "i \<le> length (takeWhile (\<lambda>x. x \<noteq> c) s)" and m: "re_match ts (drop i s) = Some m" and n: "n = i + m"
      by blast
    have "take i s = take i (takeWhile (\<lambda>x. x \<noteq> c) s)"
      using i by (metis append_take_drop_id takeWhile_dropWhile_id take_append diff_is_0_eq take_0 append_Nil2 order_refl take_all)
    then have "\<forall>x\<in>set (take i s). x \<noteq> c"
      by (metis in_set_takeD set_takeWhileD)
    then have "c \<notin> set (take i s)" by auto
    moreover have "take i s \<noteq> []" using i1 i by (cases s) auto
    moreover have "take n s = take i s @ take m (drop i s)" unfolding n by (rule take_add_drop)
    ultimately have "in_lang (NotChar c # ts) (take n s)"
      unfolding in_lang.simps using Cons.IH [OF m] by blast
    with NotChar show ?thesis by simp
  qed
qed



section \<open>The six digits of an identifier\<close>

lemma take6_uuid24:
  "take 6 (uuid24 u) = map (\<lambda>i. hexdigit (nibble u (4 * (31 - i)))) [0..<6]"
  by (simp add: uuid24_def uuid_upper_def nibble_def take_map)

lemma upt6: "[0..<6] = [0, 1, 2, 3, 4, 5::nat]"
  by (simp add: upt_rec)

lemma take6_uuid24_list:
  "take 6 (uuid24 u) = [hexdigit (nibble u 124), hexdigit (nibble u 120), hexdigit (nibble u 116),
     hexdigit (nibble u 112), hexdigit (nibble u 108), hexdigit (nibble u 104)]"
  unfolding take6_uuid24 upt6 by simp

lemma nibble_less: "nibble u k < 16"
proof -
  have "unat (drop_bit k u AND 15) \<le> unat (15 :: uuid)"
    by (rule word_and_le1 [THEN word_le_nat_alt [THEN iffD1]])
  then show ?thesis by (simp add: nibble_def)
qed

lemma hexdigit_inj: "a < 16 \<Longrightarrow> b < 16 \<Longrightarrow> hexdigit a = hexdigit b \<longleftrightarrow> a = b"
proof -
  assume a: "a < 16" and b: "b < 16"
  have d: "distinct ''0123456789ABCDEF''" by simp
  have "length ''0123456789ABCDEF'' = 16" by simp
  with a b d show ?thesis unfolding hexdigit_def
    by (simp add: nth_eq_iff_index_eq)
qed

lemma hexdigit_in: "hexdigit n \<in> set ''0123456789ABCDEF''"
proof -
  have "n mod 16 < length ''0123456789ABCDEF''" by simp
  then show ?thesis unfolding hexdigit_def by (rule nth_mem)
qed

lemma take6_uuid24_hex: "set (take 6 (uuid24 u)) \<subseteq> set ''0123456789ABCDEF''"
  unfolding take6_uuid24 using hexdigit_in by auto

lemma length_take6_uuid24: "length (take 6 (uuid24 u)) = 6"
  unfolding take6_uuid24 by simp

lemma nibble_eq_iff:
  "nibble u k = nibble v k \<longleftrightarrow> (\<forall>r<4. bit u (k + r) = bit v (k + r))"
proof -
  have "nibble u k = nibble v k \<longleftrightarrow> drop_bit k u AND 15 = drop_bit k v AND 15"
    by (simp add: nibble_def word_unat_eq_iff)
  also have "\<dots> \<longleftrightarrow> take_bit 4 (drop_bit k u) = take_bit 4 (drop_bit k v)"
    by (simp add: take_bit_eq_mask mask_eq_exp_minus_1)
  also have "\<dots> \<longleftrightarrow> (\<forall>r<4. bit u (k + r) = bit v (k + r))"
  proof
    assume e: "take_bit 4 (drop_bit k u) = take_bit 4 (drop_bit k v)"
    show "\<forall>r<4. bit u (k + r) = bit v (k + r)"
    proof (intro allI impI)
      fix r :: nat assume r: "r < 4"
      then have "bit u (k + r) = bit (take_bit 4 (drop_bit k u)) r"
        by (simp add: bit_take_bit_iff bit_drop_bit_eq)
      also have "\<dots> = bit (take_bit 4 (drop_bit k v)) r" by (simp only: e)
      also have "\<dots> = bit v (k + r)" using r by (simp add: bit_take_bit_iff bit_drop_bit_eq)
      finally show "bit u (k + r) = bit v (k + r)" .
    qed
  next
    assume "\<forall>r<4. bit u (k + r) = bit v (k + r)"
    then show "take_bit 4 (drop_bit k u) = take_bit 4 (drop_bit k v)"
      by (intro bit_eqI) (auto simp: bit_take_bit_iff bit_drop_bit_eq)
  qed
  finally show ?thesis .
qed

lemma nibble_cover:
  assumes "\<forall>r<4. P (k + r)" "k \<le> m" "m < k + 4"
  shows "P (m::nat)"
proof -
  from assms(2,3) have "m - k < 4" by simp
  with assms(1) have "P (k + (m - k))" by blast
  with assms(2) show ?thesis by simp
qed

lemma top24_eq_iff:
  "drop_bit 104 u = drop_bit 104 v \<longleftrightarrow> (\<forall>m. 104 \<le> m \<and> m < 128 \<longrightarrow> bit u m = bit v m)"
  for u v :: uuid
proof
  assume e: "drop_bit 104 u = drop_bit 104 v"
  show "\<forall>m. 104 \<le> m \<and> m < 128 \<longrightarrow> bit u m = bit v m"
  proof (intro allI impI)
    fix m :: nat assume m: "104 \<le> m \<and> m < 128"
    have "bit u m = bit (drop_bit 104 u) (m - 104)" using m by (simp add: bit_drop_bit_eq)
    also have "\<dots> = bit (drop_bit 104 v) (m - 104)" by (simp only: e)
    also have "\<dots> = bit v m" using m by (simp add: bit_drop_bit_eq)
    finally show "bit u m = bit v m" .
  qed
next
  assume h: "\<forall>m. 104 \<le> m \<and> m < 128 \<longrightarrow> bit u m = bit v m"
  show "drop_bit 104 u = drop_bit 104 v"
  proof (rule bit_eqI)
    fix n
    show "bit (drop_bit 104 u) n = bit (drop_bit 104 v) n"
    proof (cases "n < 24")
      case True
      with h have "bit u (n + 104) = bit v (n + 104)" by simp
      then show ?thesis by (simp add: bit_drop_bit_eq add.commute)
    next
      case False
      then have "\<not> bit u (n + 104)" "\<not> bit v (n + 104)"
        by (auto dest: bit_imp_le_length)
      then show ?thesis by (simp add: bit_drop_bit_eq add.commute)
    qed
  qed
qed

lemma take6_uuid24_eq_iff:
  "take 6 (uuid24 u) = take 6 (uuid24 v) \<longleftrightarrow> drop_bit 104 u = drop_bit 104 v"
proof -
  let ?P = "\<lambda>m. bit u m = bit v m"
  have "take 6 (uuid24 u) = take 6 (uuid24 v) \<longleftrightarrow>
    nibble u 124 = nibble v 124 \<and> nibble u 120 = nibble v 120 \<and> nibble u 116 = nibble v 116
    \<and> nibble u 112 = nibble v 112 \<and> nibble u 108 = nibble v 108 \<and> nibble u 104 = nibble v 104"
    unfolding take6_uuid24_list by (simp add: hexdigit_inj nibble_less)
  also have "\<dots> \<longleftrightarrow> (\<forall>m. 104 \<le> m \<and> m < 128 \<longrightarrow> ?P m)"
    unfolding nibble_eq_iff
  proof
    assume a: "(\<forall>r<4. ?P (124 + r)) \<and> (\<forall>r<4. ?P (120 + r)) \<and> (\<forall>r<4. ?P (116 + r))
      \<and> (\<forall>r<4. ?P (112 + r)) \<and> (\<forall>r<4. ?P (108 + r)) \<and> (\<forall>r<4. ?P (104 + r))"
    show "\<forall>m. 104 \<le> m \<and> m < 128 \<longrightarrow> ?P m"
    proof (intro allI impI)
      fix m :: nat assume m: "104 \<le> m \<and> m < 128"
      then consider "104 \<le> m \<and> m < 104 + 4" | "108 \<le> m \<and> m < 108 + 4" | "112 \<le> m \<and> m < 112 + 4"
        | "116 \<le> m \<and> m < 116 + 4" | "120 \<le> m \<and> m < 120 + 4" | "124 \<le> m \<and> m < 124 + 4"
        by linarith
      then show "?P m"
      proof cases
        case 1 with a show ?thesis by (intro nibble_cover [of ?P 104 m]) blast+
      next
        case 2 with a show ?thesis by (intro nibble_cover [of ?P 108 m]) blast+
      next
        case 3 with a show ?thesis by (intro nibble_cover [of ?P 112 m]) blast+
      next
        case 4 with a show ?thesis by (intro nibble_cover [of ?P 116 m]) blast+
      next
        case 5 with a show ?thesis by (intro nibble_cover [of ?P 120 m]) blast+
      next
        case 6 with a show ?thesis by (intro nibble_cover [of ?P 124 m]) blast+
      qed
    qed
  next
    assume h: "\<forall>m. 104 \<le> m \<and> m < 128 \<longrightarrow> ?P m"
    have "\<forall>r<4. ?P (k + r)" if "104 \<le> k" "k \<le> 124" for k :: nat
    proof (intro allI impI)
      fix r :: nat assume "r < 4"
      with that have "104 \<le> k + r \<and> k + r < 128" by simp
      with h show "?P (k + r)" by blast
    qed
    from this [of 124] this [of 120] this [of 116] this [of 112] this [of 108] this [of 104]
    show "(\<forall>r<4. ?P (124 + r)) \<and> (\<forall>r<4. ?P (120 + r)) \<and> (\<forall>r<4. ?P (116 + r))
      \<and> (\<forall>r<4. ?P (112 + r)) \<and> (\<forall>r<4. ?P (108 + r)) \<and> (\<forall>r<4. ?P (104 + r))"
      by simp
  qed
  also have "\<dots> \<longleftrightarrow> drop_bit 104 u = drop_bit 104 v" by (rule top24_eq_iff [symmetric])
  finally show ?thesis .
qed

section \<open>What a substitution preserves\<close>

lemma in_lang_last_Lit: "in_lang (ts @ [Lit l]) m \<Longrightarrow> suffix l m"
proof (induction ts arbitrary: m)
  case Nil
  then show ?case by (auto simp: suffix_def)
next
  case (Cons t ts)
  show ?case
  proof (cases t)
    case (Lit x)
    with Cons.prems obtain m' where "m = x @ m'" "in_lang (ts @ [Lit l]) m'" by auto
    with Cons.IH [of m'] show ?thesis by (auto simp: suffix_def)
  next
    case Spaces
    with Cons.prems obtain w m' where "m = w @ m'" "in_lang (ts @ [Lit l]) m'" by auto
    with Cons.IH [of m'] show ?thesis by (auto simp: suffix_def)
  next
    case (NotChar c)
    with Cons.prems obtain w m' where "m = w @ m'" "in_lang (ts @ [Lit l]) m'" by auto
    with Cons.IH [of m'] show ?thesis by (auto simp: suffix_def)
  qed
qed

lemma ends_with_last_Lit:
  assumes "l \<noteq> []"
  shows "ends_with (ts @ [Lit l]) (last l)"
  unfolding ends_with_def
proof (intro allI impI)
  fix s n assume m: "re_match (ts @ [Lit l]) s = Some n"
  from in_lang_last_Lit [OF re_match_sound [OF m]] obtain x where x: "take n s = x @ l"
    by (auto simp: suffix_def)
  from re_match_le [OF m] have len: "length (take n s) = n" by simp
  with x assms have n: "0 < n" by (cases l) auto
  have "s ! (n - 1) = take n s ! (n - 1)" using n by simp
  also have "\<dots> = last (take n s)" using len n by (metis last_conv_nth length_0_conv less_numeral_extra(3))
  also have "\<dots> = last l" using x assms by simp
  finally show "0 < n \<and> s ! (n - 1) = last l" using n by simp
qed

lemma prefix_re_sub_after:
  assumes "ends_with p e" "e \<notin> set X" "prefix X s"
  shows "prefix X (re_sub p [Matched 0, Txt t] s)"
  using assms(2,3)
proof (induction s arbitrary: X)
  case Nil
  then show ?case by simp
next
  case (Cons c cs)
  show ?case
  proof (cases X)
    case Nil
    then show ?thesis by simp
  next
    case X: (Cons x X')
    with Cons.prems have xc: "x = c" and p': "prefix X' cs" and e': "e \<notin> set X'" by auto
    show ?thesis
    proof (cases "re_match p (c # cs)")
      case None
      with Cons.IH [OF e' p'] X xc show ?thesis by simp
    next
      case (Some n)
      with assms(1) have n0: "0 < n" and last: "(c # cs) ! (n - 1) = e" by (auto simp: ends_with_def)
      from re_match_le [OF Some] have nle: "n \<le> length (c # cs)" .
      have "length X \<le> n"
      proof (rule ccontr)
        assume "\<not> length X \<le> n"
        then have lt: "n - 1 < length X" by simp
        from Cons.prems(2) have "X ! (n - 1) = (c # cs) ! (n - 1)"
          using lt by (auto simp: prefix_def nth_append)
        with last lt have "e \<in> set X" by (metis nth_mem)
        with Cons.prems(1) show False by simp
      qed
      obtain k where k: "n = Suc k" using n0 by (cases n) auto
      from \<open>length X \<le> n\<close> Cons.prems(2) have "prefix X (take n (c # cs))"
        by (auto simp: prefix_def)
      then have pX: "prefix X (c # take k cs)" using k by simp
      have out: "re_sub p [Matched 0, Txt t] (c # cs)
          = (c # take k cs) @ (t @ re_sub p [Matched 0, Txt t] (drop k cs))"
        using Some k nle by (simp add: min_absorb2)
      show ?thesis unfolding out using pX by (rule prefix_prefix)
    qed
  qed
qed

lemma sublist_append_cases:
  assumes "sublist X (a @ b)"
  shows "sublist X a \<or> sublist X b
     \<or> (\<exists>X1 X2. X = X1 @ X2 \<and> X1 \<noteq> [] \<and> X2 \<noteq> [] \<and> suffix X1 a \<and> prefix X2 b)"
proof -
  from assms obtain ps ss where "a @ b = ps @ X @ ss" by (auto simp: sublist_def)
  then obtain us where "(a = ps @ us \<and> us @ b = X @ ss) \<or> (a @ us = ps \<and> b = us @ X @ ss)"
    by (auto simp: append_eq_append_conv2)
  then show ?thesis
  proof
    assume h: "a = ps @ us \<and> us @ b = X @ ss"
    then obtain vs where "(us = X @ vs \<and> vs @ b = ss) \<or> (us @ vs = X \<and> b = vs @ ss)"
      by (auto simp: append_eq_append_conv2)
    then show ?thesis
    proof
      assume "us = X @ vs \<and> vs @ b = ss"
      with h have "a = ps @ X @ vs" by simp
      then show ?thesis by (auto simp: sublist_def)
    next
      assume v: "us @ vs = X \<and> b = vs @ ss"
      show ?thesis
      proof (cases "us = [] \<or> vs = []")
        case True
        then show ?thesis
        proof
          assume "us = []"
          with v have "b = [] @ X @ ss" by simp
          then show ?thesis unfolding sublist_def by blast
        next
          assume "vs = []"
          with v h have "a = ps @ X @ []" by simp
          then show ?thesis unfolding sublist_def by blast
        qed
      next
        case False
        moreover from h have "suffix us a" by (auto simp: suffix_def)
        moreover from v have "prefix vs b" by (auto simp: prefix_def)
        ultimately show ?thesis using v by blast
      qed
    qed
  next
    assume "a @ us = ps \<and> b = us @ X @ ss"
    then show ?thesis unfolding sublist_def by blast
  qed
qed

lemma sublist_in_left: "sublist X a \<Longrightarrow> sublist X (a @ b)"
  unfolding sublist_def by (metis append.assoc)

lemma sublist_in_right: "sublist X b \<Longrightarrow> sublist X (a @ b)"
  unfolding sublist_def by (metis append.assoc)

lemma sublist_re_sub_after:
  assumes "ends_with p e" "e \<notin> set X"
  shows "sublist X s \<Longrightarrow> sublist X (re_sub p [Matched 0, Txt t] s)"
proof (induction "length s" arbitrary: s rule: less_induct)
  case less
  let ?r = "re_sub p [Matched 0, Txt t]"
  show ?case
  proof (cases s)
    case Nil
    with less.prems show ?thesis by simp
  next
    case s: (Cons c cs)
    show ?thesis
    proof (cases "re_match p (c # cs)")
      case None
      from less.prems s have "prefix X (c # cs) \<or> sublist X cs" by (simp add: sublist_Cons_right)
      then show ?thesis
      proof
        assume "prefix X (c # cs)"
        with assms have "prefix X (?r (c # cs))" by (intro prefix_re_sub_after)
        then show ?thesis unfolding s by (rule prefix_imp_sublist)
      next
        assume "sublist X cs"
        with less.hyps [of cs] s have "sublist X (?r cs)" by simp
        with None s show ?thesis by (simp add: sublist_Cons_right)
      qed
    next
      case (Some n)
      with assms(1) have n0: "0 < n" and last: "(c # cs) ! (n - 1) = e" by (auto simp: ends_with_def)
      from re_match_le [OF Some] have nle: "n \<le> length (c # cs)" .
      obtain k where k: "n = Suc k" using n0 by (cases n) auto
      let ?m = "c # take k cs" and ?b = "drop k cs"
      have out: "?r (c # cs) = ?m @ t @ ?r ?b" using Some k nle by (simp add: min_absorb2)
      have m_take: "?m = take n (c # cs)" using k by simp
      have "length (take n (c # cs)) = n" using nle by simp
      then have "last (take n (c # cs)) = take n (c # cs) ! (n - 1)"
        using n0 by (metis last_conv_nth length_0_conv less_numeral_extra(3))
      also have "\<dots> = (c # cs) ! (n - 1)" using n0 by simp
      finally have lastm: "last ?m = e" using last unfolding m_take by simp
      have "sublist X (?m @ ?b)" using less.prems s by simp
      from sublist_append_cases [OF this] show ?thesis
      proof (elim disjE exE conjE)
        assume "sublist X ?m"
        then show ?thesis unfolding s out by (rule sublist_in_left)
      next
        assume "sublist X ?b"
        with less.hyps [of ?b] s have "sublist X (?r ?b)" by simp
        then show ?thesis unfolding s out by (intro sublist_in_right)
      next
        fix X1 X2 assume "X = X1 @ X2" "X1 \<noteq> []" "suffix X1 ?m"
        then have "last X1 = last ?m" by (metis last_appendR suffix_def)
        with lastm \<open>X1 \<noteq> []\<close> \<open>X = X1 @ X2\<close> have "e \<in> set X" by (metis last_in_set Un_iff set_append)
        with assms(2) show ?thesis by simp
      qed
    qed
  qed
qed

lemma no_cut_iff:
  "no_cut S X \<longleftrightarrow> (\<forall>i. 0 < i \<and> i < length X \<longrightarrow> \<not> prefix S (drop i X) \<and> \<not> prefix (drop i X) S)"
  by (auto simp: no_cut_def list_all_iff)

lemma no_cut_drop: "no_cut S X \<Longrightarrow> no_cut S (drop j X)"
  unfolding no_cut_iff
proof (intro allI impI)
  fix i
  assume h: "\<forall>i. 0 < i \<and> i < length X \<longrightarrow> \<not> prefix S (drop i X) \<and> \<not> prefix (drop i X) S"
    and i: "0 < i \<and> i < length (drop j X)"
  then have "0 < i + j \<and> i + j < length X" by auto
  with h have "\<not> prefix S (drop (i + j) X) \<and> \<not> prefix (drop (i + j) X) S" by blast
  then show "\<not> prefix S (drop i (drop j X)) \<and> \<not> prefix (drop i (drop j X)) S" by simp
qed

lemma no_cut_no_match:
  assumes "no_cut S X" "0 < j" "j < length X" "prefix (drop j X) b"
  shows "\<not> prefix S b"
proof
  assume "prefix S b"
  with assms(4) have "prefix S (drop j X) \<or> prefix (drop j X) S"
    using prefix_same_cases by blast
  with assms(1-3) show False unfolding no_cut_iff by blast
qed

lemma sentinel_hit:
  assumes "S \<noteq> []" "prefix S s"
  shows "re_sub [Lit S] [Txt T] s = T @ re_sub [Lit S] [Txt T] (drop (length S) s)"
proof -
  from assms obtain c cs where s: "s = c # cs" by (cases s) auto
  from assms obtain n where n: "length S = Suc n" by (cases S) auto
  with assms(2) s show ?thesis by simp
qed

lemma sentinel_miss:
  "\<not> prefix S (c # cs) \<Longrightarrow> re_sub [Lit S] [Txt T] (c # cs) = c # re_sub [Lit S] [Txt T] cs"
  by simp

lemma prefix_re_sub_sentinel:
  assumes "S \<noteq> []"
  shows "no_cut S X \<Longrightarrow> prefix X s \<Longrightarrow>
    (if prefix S s then prefix X (S @ re_sub [Lit S] [Txt T] (drop (length S) s))
     else prefix X (re_sub [Lit S] [Txt T] s))"
proof (induction "length s" arbitrary: s X rule: less_induct)
  case less
  let ?r = "re_sub [Lit S] [Txt T]"
  show ?case
  proof (cases "prefix S s")
    case True
    let ?b = "drop (length S) s"
    from True have s: "s = S @ ?b" by (auto simp: prefix_def)
    show ?thesis
    proof (cases "length X \<le> length S")
      case le: True
      from True less.prems(2) have "prefix X S \<or> prefix S X" using prefix_same_cases by blast
      with le have "prefix X S" by (auto simp: prefix_def)
      with True show ?thesis by (simp add: prefix_prefix)
    next
      case gt: False
      from True less.prems(2) have "prefix X S \<or> prefix S X" using prefix_same_cases by blast
      with gt have pSX: "prefix S X" by (metis prefix_length_le)
      then have X: "X = S @ drop (length S) X" by (auto simp: prefix_def)
      have p2: "prefix (drop (length S) X) ?b"
        using less.prems(2) X s by (metis same_prefix_prefix)
      have lenS: "0 < length S" using assms by simp
      have nm: "\<not> prefix S ?b"
        using less.prems(1) lenS _ p2 by (rule no_cut_no_match) (use gt in simp)
      have "length S \<le> length s" using True by (rule prefix_length_le)
      moreover have "length ?b = length s - length S" by simp
      ultimately have "length ?b < length s" using lenS by linarith
      from less.hyps [OF this no_cut_drop [OF less.prems(1)] p2] nm
      have "prefix (drop (length S) X) (?r ?b)" by simp
      then have "prefix (S @ drop (length S) X) (S @ ?r ?b)" by simp
      with X True show ?thesis by simp
    qed
  next
    case False
    show ?thesis
    proof (cases s)
      case Nil
      with less.prems(2) show ?thesis by simp
    next
      case s: (Cons c cs)
      show ?thesis
      proof (cases X)
        case Nil
        then show ?thesis by simp
      next
        case X: (Cons x X')
        with less.prems(2) s have xc: "x = c" and p': "prefix X' cs" by auto
        have out: "?r s = c # ?r cs" using False s by simp
        show ?thesis
        proof (cases "X' = []")
          case True
          with X xc out False show ?thesis by simp
        next
          case ne: False
          have "prefix (drop 1 X) cs" using X p' by simp
          moreover have "(1::nat) < length X" using X ne by (cases X') auto
          ultimately have nm: "\<not> prefix S cs"
            using no_cut_no_match [OF less.prems(1), of 1 cs] by simp
          have "no_cut S X'" using no_cut_drop [OF less.prems(1), of 1] X by simp
          from less.hyps [of cs X', OF _ this p'] s nm have "prefix X' (?r cs)" by simp
          with X xc out False show ?thesis by simp
        qed
      qed
    qed
  qed
qed

lemma sublist_re_sub_sentinel:
  assumes "S \<noteq> []" "no_cut S X"
  shows "sublist X s \<Longrightarrow> sublist X (re_sub [Lit S] [Txt (t @ S)] s)"
proof (induction "length s" arbitrary: s rule: less_induct)
  case less
  let ?r = "re_sub [Lit S] [Txt (t @ S)]"
  have lenS: "0 < length S" using assms by simp
  show ?case
  proof (cases "prefix S s")
    case True
    let ?b = "drop (length S) s"
    from True have s: "s = S @ ?b" by (auto simp: prefix_def)
    have out: "?r s = t @ S @ ?r ?b" using sentinel_hit [OF assms(1) True, of "t @ S"] by simp
    have "length S \<le> length s" using True by (rule prefix_length_le)
    moreover have "length ?b = length s - length S" by simp
    ultimately have len: "length ?b < length s" using lenS by linarith
    from less.prems s have "sublist X (S @ ?b)" by simp
    from sublist_append_cases [OF this] show ?thesis
    proof (elim disjE exE conjE)
      assume "sublist X S"
      then show ?thesis unfolding out by (intro sublist_in_right sublist_in_left)
    next
      assume "sublist X ?b"
      with less.hyps [OF len] have "sublist X (?r ?b)" by simp
      then show ?thesis unfolding out by (intro sublist_in_right)
    next
      fix X1 X2 assume X: "X = X1 @ X2" and ne: "X1 \<noteq> []" "X2 \<noteq> []"
        and suf: "suffix X1 S" and pre: "prefix X2 ?b"
      have d: "drop (length X1) X = X2" using X by simp
      have nm: "\<not> prefix S ?b"
        by (rule no_cut_no_match [OF assms(2), of "length X1"]) (use X ne pre d in auto)
      have "no_cut S X2" using no_cut_drop [OF assms(2), of "length X1"] d by simp
      from prefix_re_sub_sentinel [OF assms(1) this pre, of "t @ S"] nm
      have "prefix X2 (?r ?b)" by simp
      then obtain zs where r: "?r ?b = X2 @ zs" by (auto simp: prefix_def)
      from suf obtain ys where S: "S = ys @ X1" by (auto simp: suffix_def)
      have "t @ S @ ?r ?b = (t @ ys) @ X @ zs" using r S X by simp
      then show ?thesis unfolding out sublist_def by metis
    qed
  next
    case False
    show ?thesis
    proof (cases s)
      case Nil
      with less.prems show ?thesis by simp
    next
      case s: (Cons c cs)
      have out: "?r s = c # ?r cs" using False s by simp
      from less.prems s have "prefix X (c # cs) \<or> sublist X cs" by (simp add: sublist_Cons_right)
      then show ?thesis
      proof
        assume "prefix X (c # cs)"
        with prefix_re_sub_sentinel [OF assms(1,2), of s "t @ S"] False s
        have "prefix X (?r s)" by simp
        then show ?thesis by (rule prefix_imp_sublist)
      next
        assume "sublist X cs"
        with less.hyps [of cs] s have "sublist X (?r cs)" by simp
        then show ?thesis unfolding out by (simp add: sublist_Cons_right)
      qed
    qed
  qed
qed







lemma brace_free_take6 [simp]: "brace_free (take 6 (uuid24 u))"
  using take6_uuid24_hex [of u] unfolding brace_free_def by auto

lemma ends_with_group [simp]:
  "ends_with services_group_pattern (CHR '','')"
  "ends_with components_group_pattern (CHR '','')"
  "ends_with modules_group_pattern_56 (CHR '','')"
  "ends_with sources_pattern (CHR '','')"
proof -
  show "ends_with services_group_pattern (CHR '','')"
    unfolding services_group_pattern_def
    using ends_with_last_Lit [of "''1A00007D /* StoreManager.swift */,''"
        "[Lit ''1A000055 /* Services */ = {'', Spaces, Lit ''isa = PBXGroup;'', Spaces,
      Lit ''children = ('', Spaces]"] by simp
  show "ends_with components_group_pattern (CHR '','')"
    unfolding components_group_pattern_def
    using ends_with_last_Lit [of "''1A000035 /* SceneCard.swift */,''"
        "[Lit ''1A000053 /* Components */ = {'', Spaces, Lit ''isa = PBXGroup;'', Spaces,
      Lit ''children = ('', Spaces]"] by simp
  show "ends_with modules_group_pattern_56 (CHR '','')"
    unfolding modules_group_pattern_56_def
    using ends_with_last_Lit [of "''1A00007F /* ContinuityEngine.swift */,''"
        "[Lit ''1A000056 /* Modules */ = {'', Spaces, Lit ''isa = PBXGroup;'', Spaces,
      Lit ''children = ('', Spaces]"] by simp
  show "ends_with sources_pattern (CHR '','')"
    unfolding sources_pattern_def
    using ends_with_last_Lit [of "''1A000003 /* ContentView.swift in Sources */,''"
        "[Lit ''1A000064 /* Sources */ = {'', Spaces, Lit ''isa = PBXSourcesBuildPhase;'', Spaces,
      Lit ''buildActionMask = 2147483647;'', Spaces, Lit ''files = ('', Spaces]"] by simp
qed






section \<open>Applying a script twice\<close>

lemma local_pat_Lit:
  assumes "local_pat ts"
  shows "local_pat (Lit l # ts)"
  unfolding local_pat_def
proof (intro allI impI)
  fix s n x assume "re_match (Lit l # ts) s = Some n"
  then obtain m where pl: "prefix l s" and m: "re_match ts (drop (length l) s) = Some m"
    and n: "n = length l + m" by (auto split: if_splits)
  from pl have tl: "take (length l) s = l" by (auto simp: prefix_def)
  have t: "take (length l + m) s @ x = l @ (take m (drop (length l) s) @ x)"
    unfolding take_add_drop tl by simp
  from assms m have "re_match ts (take m (drop (length l) s) @ x) = Some m"
    unfolding local_pat_def by blast
  then have "re_match (Lit l # ts) (l @ (take m (drop (length l) s) @ x)) = Some (length l + m)"
    by simp
  then show "re_match (Lit l # ts) (take n s @ x) = Some n"
    unfolding n t .
qed

lemma takeWhile_take: "takeWhile P s = take (length (takeWhile P s)) s"
  by (metis takeWhile_eq_take)

lemma local_pat_Spaces:
  assumes loc: "local_pat (Lit (c # l) # ts)" and c: "\<not> is_space c"
  shows "local_pat (Spaces # Lit (c # l) # ts)"
  unfolding local_pat_def
proof (intro allI impI)
  fix s n x
  let ?k = "re_match (Lit (c # l) # ts)"
  let ?K = "length (takeWhile is_space s)"
  assume "re_match (Spaces # Lit (c # l) # ts) s = Some n"
  then have "backtrack ?k s 0 ?K = Some n" by simp
  from backtrack_SomeD [OF this] obtain j m where j: "j \<le> ?K" and m: "?k (drop j s) = Some m"
    and n: "n = j + m" by blast
  from m have pc: "prefix (c # l) (drop j s)" and m1: "1 \<le> m" by (auto split: if_splits)
  have jK: "j = ?K"
  proof (rule ccontr)
    assume "j \<noteq> ?K"
    with j have lt: "j < ?K" by simp
    then have "is_space (takeWhile is_space s ! j)" by (metis nth_mem set_takeWhileD)
    moreover have "takeWhile is_space s ! j = s ! j" using lt by (rule takeWhile_nth)
    moreover have "j < length s" using lt length_takeWhile_le [of is_space s] by simp
    then have "drop j s = s ! j # drop (Suc j) s" by (simp add: Cons_nth_drop_Suc)
    with pc have "s ! j = c" by simp
    ultimately show False using c by simp
  qed
  let ?w = "take ?K s" and ?y = "take m (drop ?K s) @ x"
  have w: "?w = takeWhile is_space s" by (rule takeWhile_take [symmetric])
  have s': "take (?K + m) s @ x = ?w @ ?y" unfolding take_add_drop by simp
  from pc m1 obtain y' where y: "?y = c # y'" unfolding jK
    by (cases "drop ?K s"; cases m) auto
  have tw: "takeWhile is_space (?w @ ?y) = ?w"
  proof -
    have "\<And>z. z \<in> set ?w \<Longrightarrow> is_space z" unfolding w by (auto dest: set_takeWhileD)
    then have "takeWhile is_space (?w @ ?y) = ?w @ takeWhile is_space ?y"
      by (rule takeWhile_append2)
    also have "takeWhile is_space ?y = []" unfolding y using c by simp
    finally show ?thesis by simp
  qed
  have lw: "length ?w = ?K" unfolding w ..
  from loc m have k': "?k (take m (drop ?K s) @ x) = Some m" unfolding local_pat_def jK by blast
  have "backtrack ?k (?w @ ?y) 0 ?K = Some (?K + m)"
  proof (rule backtrack_unique)
    show "?k (drop ?K (?w @ ?y)) = Some m" using k' lw by simp
  qed simp_all
  then have "re_match (Spaces # Lit (c # l) # ts) (?w @ ?y) = Some (?K + m)"
    by (simp only: re_match.simps tok.case tw lw)
  then show "re_match (Spaces # Lit (c # l) # ts) (take n s @ x) = Some n"
    unfolding n jK s' .
qed

lemma simple_pat_local: "simple_pat p \<Longrightarrow> local_pat p"
proof (induction p rule: simple_pat.induct)
  case 1
  show ?case by (simp add: local_pat_def)
next
  case (2 l ts)
  then show ?case by (simp add: local_pat_Lit)
next
  case (3 c l ts)
  then show ?case by (simp add: local_pat_Lit local_pat_Spaces)
qed simp_all





lemma simple_pat_simps [simp]:
  "simple_pat services_group_pattern" "simple_pat components_group_pattern"
  "simple_pat modules_group_pattern_56" "simple_pat sources_pattern"
  by (simp_all add: services_group_pattern_def components_group_pattern_def
      modules_group_pattern_56_def sources_pattern_def is_space_def)

lemma group_pat_simps [simp]:
  "group_pat services_group_pattern" "group_pat components_group_pattern"
  "group_pat modules_group_pattern_56" "group_pat sources_pattern"
  "group_pat build_record_pattern" "group_pat file_ref_pattern" "group_pat build_file_pattern"
  by (simp_all add: group_pat_def services_group_pattern_def components_group_pattern_def
      modules_group_pattern_56_def sources_pattern_def build_record_pattern_def
      file_ref_pattern_def build_file_pattern_def)



lemma hexdigit_neq [simp]:
  "hexdigit n \<noteq> CHR ''/''" "hexdigit n \<noteq> CHR '',''" "hexdigit n \<noteq> CHR '' ''"
  "hexdigit n \<noteq> CHR ''*''" "hexdigit n \<noteq> nl" "hexdigit n \<noteq> tab"
  "CHR ''/'' \<noteq> hexdigit n" "CHR '','' \<noteq> hexdigit n" "CHR '' '' \<noteq> hexdigit n"
  "CHR ''*'' \<noteq> hexdigit n" "nl \<noteq> hexdigit n" "tab \<noteq> hexdigit n"
  using hexdigit_in [of n] by auto

lemma re_search_Lit_sublist: "re_search [Lit S] s \<longleftrightarrow> sublist S s"
proof
  assume "re_search [Lit S] s"
  then obtain i where "i \<le> length s" "re_match [Lit S] (drop i s) \<noteq> None"
    by (auto simp: re_search_iff)
  then have "prefix S (drop i s)" by (auto split: if_splits)
  then have "sublist S (take i s @ drop i s)" by (intro sublist_in_right prefix_imp_sublist)
  then show "sublist S s" by simp
next
  assume "sublist S s"
  then obtain ps ss where s: "s = ps @ S @ ss" by (auto simp: sublist_def)
  then have "re_match [Lit S] (drop (length ps) s) \<noteq> None" by simp
  moreover have "length ps \<le> length s" using s by simp
  ultimately show "re_search [Lit S] s" by (rule re_match_drop_search [rotated])
qed

lemma sentinel_inserted:
  assumes "S \<noteq> []" "sublist S s"
  shows "sublist (t @ S) (re_sub [Lit S] [Txt (t @ S)] s)"
proof -
  let ?r = "re_sub [Lit S] [Txt (t @ S)]"
  from assms(2) have "re_search [Lit S] s" by (simp add: re_search_Lit_sublist)
  from re_search_first [OF this] obtain a m b where s: "s = a @ m @ b"
    and first: "\<And>i. i < length a \<Longrightarrow> re_match [Lit S] (drop i s) = None"
    and m: "re_match [Lit S] (m @ b) = Some (length m)" by blast
  from m have "prefix S (m @ b)" "length m = length S" by (auto split: if_splits)
  then have mS: "m = S" by (auto simp: prefix_def append_eq_append_conv)
  with assms first m have "?r (a @ m @ b) = a @ expand [Txt (t @ S)] m @ ?r b"
    unfolding s by (intro re_sub_first_match) auto
  then have "?r s = a @ (t @ S) @ ?r b" unfolding s by simp
  then show ?thesis unfolding sublist_def by blast
qed

lemma no_cut_build_in_file_ref:
  "no_cut ''/* End PBXBuildFile section */''
     (file_ref_record (take 6 (uuid24 u)) ''CostMetricsManager.swift'' ''CostMetricsManager.swift'')"
  unfolding no_cut_def file_ref_record_def take6_uuid24_list
  by (simp add: upt_rec)

lemma comma_free_file_ref:
  "CHR '','' \<notin> set (file_ref_record (take 6 (uuid24 u)) ''CostMetricsManager.swift'' ''CostMetricsManager.swift'')"
  unfolding file_ref_record_def take6_uuid24_list by simp

lemma sublist_trans: "sublist a b \<Longrightarrow> sublist b c \<Longrightarrow> sublist a c"
  unfolding sublist_def by (metis append.assoc)

lemma add_cost_metrics_inserts_record:
  assumes "sublist ''/* End PBXFileReference section */'' doc"
  shows "sublist (file_ref_record (take 6 (uuid24 u1)) ''CostMetricsManager.swift'' ''CostMetricsManager.swift'')
           (add_cost_metrics u1 u2 doc)"
proof -
  let ?h1 = "take 6 (uuid24 u1)" and ?h2 = "take 6 (uuid24 u2)"
  let ?name = "''CostMetricsManager.swift''"
  let ?X = "file_ref_record ?h1 ?name ?name"
  let ?SF = "''/* End PBXFileReference section */''"
  let ?s1 = "re_sub services_group_pattern [Matched 0, Txt (group_child ?h1 ?name)] doc"
  let ?s2 = "re_sub [Lit ?SF] [Txt ((?X @ [nl, nl]) @ ?SF)] ?s1"
  let ?s3 = "re_sub sources_pattern [Matched 0, Txt (sources_child ?h2 ?name)] ?s2"
  let ?s4 = "re_sub [Lit ''/* End PBXBuildFile section */'']
      [Txt ((build_file_record ?h2 (''1A0000'' @ ?h1) ?name @ [nl, nl]) @ ''/* End PBXBuildFile section */'')] ?s3"
  have c: "CHR '','' \<notin> set ?SF" by simp
  have 1: "sublist ?SF ?s1" using ends_with_group(1) c assms by (rule sublist_re_sub_after)
  have "sublist ((?X @ [nl, nl]) @ ?SF) ?s2" using _ 1 by (rule sentinel_inserted) simp
  moreover have "sublist ?X ((?X @ [nl, nl]) @ ?SF)"
    by (intro sublist_in_left) simp
  ultimately have 2: "sublist ?X ?s2" by (rule sublist_trans [rotated])
  have 3: "sublist ?X ?s3" using ends_with_group(4) comma_free_file_ref 2 by (rule sublist_re_sub_after)
  have 4: "sublist ?X ?s4" using _ no_cut_build_in_file_ref 3 by (rule sublist_re_sub_sentinel) simp
  have "add_cost_metrics u1 u2 doc = ?s4"
    by (simp add: add_cost_metrics_patch patch_file_def patch_subs_def file_ref_pattern_def
        build_file_pattern_def)
  with 4 show ?thesis by simp
qed

section \<open>Documents in pieces\<close>

lemma nostart_iff:
  "nostart l a \<longleftrightarrow> (\<forall>i<length a. \<not> prefix l (drop i a) \<and> \<not> prefix (drop i a) l)"
  by (auto simp: nostart_def list_all_iff)

lemma nostart_no_prefix:
  assumes "nostart l a" "i < length a"
  shows "\<not> prefix l (drop i a @ s)"
proof
  assume "prefix l (drop i a @ s)"
  moreover have "prefix (drop i a) (drop i a @ s)" by simp
  ultimately have "prefix l (drop i a) \<or> prefix (drop i a) l"
    by (rule prefix_same_cases)
  with assms show False unfolding nostart_iff by blast
qed

lemma nostart_Nil [simp]: "nostart l []"
  by (simp add: nostart_def)

lemma nostart_append:
  assumes "nostart l a" "nostart l b"
  shows "nostart l (a @ b)"
  unfolding nostart_iff
proof (intro allI impI)
  fix i assume i: "i < length (a @ b)"
  show "\<not> prefix l (drop i (a @ b)) \<and> \<not> prefix (drop i (a @ b)) l"
  proof (cases "i < length a")
    case True
    from nostart_no_prefix [OF assms(1) True, of b] have "\<not> prefix l (drop i (a @ b))"
      using True by simp
    moreover have "\<not> prefix (drop i (a @ b)) l"
    proof
      assume "prefix (drop i (a @ b)) l"
      then have "prefix (drop i a @ b) l" using True by simp
      then have "prefix (drop i a) l" by (rule append_prefixD)
      with assms(1) True show False unfolding nostart_iff by blast
    qed
    ultimately show ?thesis by simp
  next
    case False
    then have "drop i (a @ b) = drop (i - length a) b" by simp
    moreover have "i - length a < length b" using i False by simp
    ultimately show ?thesis using assms(2) unfolding nostart_iff by metis
  qed
qed

lemma nostart_spaces:
  assumes "\<forall>c\<in>set w. is_space c" "\<not> is_space c0"
  shows "nostart (c0 # l) w"
  unfolding nostart_iff
proof (intro allI impI)
  fix i assume i: "i < length w"
  then have d: "drop i w = w ! i # drop (Suc i) w" by (simp add: Cons_nth_drop_Suc)
  from i assms(1) have "is_space (w ! i)" by simp
  with assms(2) have "w ! i \<noteq> c0" by auto
  then show "\<not> prefix (c0 # l) (drop i w) \<and> \<not> prefix (drop i w) (c0 # l)"
    unfolding d by simp
qed

lemma nostart_tl: "nostart l (x # a) \<Longrightarrow> nostart l a"
  unfolding nostart_iff
proof (intro allI impI)
  fix i assume h: "\<forall>i<length (x # a). \<not> prefix l (drop i (x # a)) \<and> \<not> prefix (drop i (x # a)) l"
    and i: "i < length a"
  then have "Suc i < length (x # a)" by simp
  with h have "\<not> prefix l (drop (Suc i) (x # a)) \<and> \<not> prefix (drop (Suc i) (x # a)) l" by blast
  then show "\<not> prefix l (drop i a) \<and> \<not> prefix (drop i a) l" by simp
qed

lemma re_sub_skip:
  "nostart l a \<Longrightarrow> re_sub (Lit l # ts) r (a @ s) = a @ re_sub (Lit l # ts) r s"
proof (induction a)
  case Nil
  show ?case by simp
next
  case (Cons x a)
  from nostart_no_prefix [OF Cons.prems, of 0 s] have "\<not> prefix l (x # a @ s)" by simp
  then have "re_match (Lit l # ts) (x # a @ s) = None" by simp
  with Cons.IH [OF nostart_tl [OF Cons.prems]] show ?case by simp
qed

lemma re_sub_skip_end:
  assumes "nostart l a" "l \<noteq> []"
  shows "re_sub (Lit l # ts) r a = a"
proof -
  from assms(2) have "re_sub (Lit l # ts) r [] = []" by (cases l) simp_all
  with re_sub_skip [OF assms(1), of ts r "[]"] show ?thesis by simp
qed

lemma step_after:
  assumes loc: "local_pat (Lit l # ts)" and l: "l \<noteq> []"
    and m: "re_match (Lit l # ts) M = Some (length M)"
    and A: "nostart l A" and B: "nostart l B"
  shows "re_sub (Lit l # ts) [Matched 0, Txt t] (A @ M @ B) = A @ M @ t @ B"
proof -
  let ?p = "Lit l # ts" and ?r = "[Matched 0, Txt t]"
  from loc m have "re_match ?p (take (length M) M @ B) = Some (length M)"
    unfolding local_pat_def by blast
  then have mB: "re_match ?p (M @ B) = Some (length M)" by simp
  from re_match_Lit_SomeD [OF m] l have "M \<noteq> []" by (cases l) auto
  with mB have "re_sub ?p ?r ([] @ M @ B) = [] @ expand ?r M @ re_sub ?p ?r B"
    by (intro re_sub_first_match) simp_all
  then have "re_sub ?p ?r (M @ B) = M @ t @ re_sub ?p ?r B" by simp
  also have "re_sub ?p ?r B = B" using B l by (rule re_sub_skip_end)
  finally show ?thesis using re_sub_skip [OF A, of ts ?r "M @ B"] by simp
qed

lemma step_sentinel:
  assumes S: "S \<noteq> []" and A: "nostart S A" and B: "nostart S B"
  shows "re_sub [Lit S] [Txt T] (A @ S @ B) = A @ T @ B"
proof -
  have "re_sub [Lit S] [Txt T] (S @ B) = T @ re_sub [Lit S] [Txt T] (drop (length S) (S @ B))"
    using S by (intro sentinel_hit) simp_all
  also have "re_sub [Lit S] [Txt T] (drop (length S) (S @ B)) = B"
    using re_sub_skip_end [OF B S, of "[]" "[Txt T]"] by simp
  finally show ?thesis using re_sub_skip [OF A, of "[]" "[Txt T]" "S @ B"] by simp
qed

lemma nostart_fixed:
  "nostart ''/* End PBXFileReference section */'' (''/* End PBXBuildFile section */'' @ [nl])"
  "nostart ''1A000064 /* Sources */ = {'' (''/* End PBXBuildFile section */'' @ [nl])"
  "nostart ''1A000064 /* Sources */ = {'' (''/* End PBXFileReference section */'' @ [nl])"
  "nostart ''/* End PBXBuildFile section */'' (''/* End PBXFileReference section */'' @ [nl])"
  "nostart ''/* End PBXFileReference section */'' [nl]"
  "nostart ''/* End PBXBuildFile section */'' [nl]"
  by code_simp+

lemma patch_file_canonical:
  fixes name pf :: string and u1 u2 :: uuid
  defines "h1 \<equiv> take 6 (uuid24 u1)" and "h2 \<equiv> take 6 (uuid24 u2)"
  defines "SB \<equiv> ''/* End PBXBuildFile section */''"
    and "SF \<equiv> ''/* End PBXFileReference section */''"
    and "ls \<equiv> ''1A000064 /* Sources */ = {''"
  defines "GC \<equiv> group_child h1 name" and "SC \<equiv> sources_child h2 name"
    and "Rnn \<equiv> file_ref_record h1 name pf @ [nl, nl]"
    and "BFnn \<equiv> build_file_record h2 (''1A0000'' @ h1) name @ [nl, nl]"
  assumes gp: "gp = Lit lg # tsg" "lg \<noteq> []" "local_pat gp"
    and G: "re_match gp G = Some (length G)"
    and SRC: "re_match sources_pattern SRC = Some (length SRC)"
    and a: "anchor_free lg a0" "anchor_free lg a1" "anchor_free lg a2" "anchor_free lg a3"
      "anchor_free lg a4"
    and Gf: "nostart SF G" "nostart ls G" "nostart SB G"
    and SRCf: "nostart lg SRC" "nostart SF SRC" "nostart SB SRC"
    and lgf: "nostart lg (SB @ [nl])" "nostart lg (SF @ [nl])"
    and GCf: "nostart SF GC" "nostart ls GC" "nostart SB GC"
    and Rf: "nostart ls Rnn" "nostart SB Rnn"
    and SCf: "nostart SB SC"
  shows "patch_file name pf gp u1 u2
           (a0 @ SB @ [nl] @ a1 @ SF @ [nl] @ a2 @ G @ a3 @ SRC @ a4)
         = a0 @ BFnn @ SB @ [nl] @ a1 @ Rnn @ SF @ [nl] @ a2 @ G @ GC @ a3 @ SRC @ SC @ a4"
proof -
  note fx = nostart_fixed [folded SB_def SF_def ls_def]
  have a_lg: "nostart lg a0" "nostart lg a1" "nostart lg a2" "nostart lg a3" "nostart lg a4"
    and a_SF: "nostart SF a0" "nostart SF a1" "nostart SF a2" "nostart SF a3" "nostart SF a4"
    and a_ls: "nostart ls a0" "nostart ls a1" "nostart ls a2" "nostart ls a3" "nostart ls a4"
    and a_SB: "nostart SB a0" "nostart SB a1" "nostart SB a2" "nostart SB a3" "nostart SB a4"
    using a unfolding anchor_free_def SB_def SF_def ls_def by simp_all
  have SBne: "SB \<noteq> []" and SFne: "SF \<noteq> []" and lsne: "ls \<noteq> []"
    by (simp_all add: SB_def SF_def ls_def)
  have srcp: "sources_pattern = Lit ls #
     [Spaces, Lit ''isa = PBXSourcesBuildPhase;'', Spaces,
      Lit ''buildActionMask = 2147483647;'', Spaces, Lit ''files = ('', Spaces,
      Lit ''1A000003 /* ContentView.swift in Sources */,'']"
    by (simp add: sources_pattern_def ls_def)
  have srcl: "local_pat sources_pattern" by (rule simple_pat_local) simp
  let ?d0 = "a0 @ SB @ [nl] @ a1 @ SF @ [nl] @ a2 @ G @ a3 @ SRC @ a4"
  let ?d1 = "a0 @ SB @ [nl] @ a1 @ SF @ [nl] @ a2 @ G @ GC @ a3 @ SRC @ a4"
  let ?d2 = "a0 @ SB @ [nl] @ a1 @ Rnn @ SF @ [nl] @ a2 @ G @ GC @ a3 @ SRC @ a4"
  let ?d3 = "a0 @ SB @ [nl] @ a1 @ Rnn @ SF @ [nl] @ a2 @ G @ GC @ a3 @ SRC @ SC @ a4"
  let ?d4 = "a0 @ BFnn @ SB @ [nl] @ a1 @ Rnn @ SF @ [nl] @ a2 @ G @ GC @ a3 @ SRC @ SC @ a4"
  have 1: "re_sub gp [Matched 0, Txt GC] ?d0 = ?d1"
  proof -
    have A: "nostart lg (a0 @ (SB @ [nl]) @ a1 @ (SF @ [nl]) @ a2)"
      by (intro nostart_append a_lg lgf)
    have B: "nostart lg (a3 @ SRC @ a4)" by (intro nostart_append a_lg SRCf)
    from step_after [OF gp(3) [unfolded gp(1)] gp(2) G [unfolded gp(1)] A B, of GC]
    show ?thesis unfolding gp(1) by simp
  qed
  have 2: "re_sub [Lit SF] [Txt (Rnn @ SF)] ?d1 = ?d2"
  proof -
    have A: "nostart SF (a0 @ (SB @ [nl]) @ a1)" by (intro nostart_append a_SF fx)
    have B: "nostart SF ([nl] @ a2 @ G @ GC @ a3 @ SRC @ a4)"
      by (intro nostart_append a_SF fx Gf GCf SRCf)
    from step_sentinel [OF SFne A B, of "Rnn @ SF"] show ?thesis by simp
  qed
  have 3: "re_sub sources_pattern [Matched 0, Txt SC] ?d2 = ?d3"
  proof -
    have A: "nostart ls (a0 @ (SB @ [nl]) @ a1 @ Rnn @ (SF @ [nl]) @ a2 @ G @ GC @ a3)"
      by (intro nostart_append a_ls fx Gf GCf Rf)
    from step_after [OF srcl [unfolded srcp] lsne SRC [unfolded srcp] A a_ls(5), of SC]
    show ?thesis unfolding srcp by simp
  qed
  have 4: "re_sub [Lit SB] [Txt (BFnn @ SB)] ?d3 = ?d4"
  proof -
    have B: "nostart SB ([nl] @ a1 @ Rnn @ (SF @ [nl]) @ a2 @ G @ GC @ a3 @ SRC @ SC @ a4)"
      by (intro nostart_append a_SB fx Gf GCf Rf SRCf SCf)
    from step_sentinel [OF SBne a_SB(1) B, of "BFnn @ SB"] show ?thesis by simp
  qed
  have "patch_file name pf gp u1 u2 ?d0
      = re_sub [Lit SB] [Txt (BFnn @ SB)] (re_sub sources_pattern [Matched 0, Txt SC]
          (re_sub [Lit SF] [Txt (Rnn @ SF)] (re_sub gp [Matched 0, Txt GC] ?d0)))"
    unfolding patch_file_def patch_subs_def file_ref_pattern_def build_file_pattern_def
      h1_def h2_def SB_def SF_def GC_def SC_def Rnn_def BFnn_def
    by simp
  then show ?thesis unfolding 1 2 3 4 .
qed

lemma in_lang_group_shape:
  "in_lang [Lit A, Spaces, Lit B, Spaces, Lit C, Spaces, Lit D] m \<Longrightarrow>
   \<exists>w1 w2 w3. m = A @ w1 @ B @ w2 @ C @ w3 @ D
      \<and> (\<forall>c\<in>set w1. is_space c) \<and> (\<forall>c\<in>set w2. is_space c) \<and> (\<forall>c\<in>set w3. is_space c)"
  by auto

lemma in_lang_sources_shape:
  "in_lang [Lit A, Spaces, Lit B, Spaces, Lit C, Spaces, Lit D, Spaces, Lit E] m \<Longrightarrow>
   \<exists>w1 w2 w3 w4. m = A @ w1 @ B @ w2 @ C @ w3 @ D @ w4 @ E
      \<and> (\<forall>c\<in>set w1. is_space c) \<and> (\<forall>c\<in>set w2. is_space c) \<and> (\<forall>c\<in>set w3. is_space c)
      \<and> (\<forall>c\<in>set w4. is_space c)"
  by auto

lemma nostart_group_match:
  assumes m: "re_match [Lit A, Spaces, Lit B, Spaces, Lit C, Spaces, Lit D] G = Some (length G)"
    and f: "nostart (c0 # l) A" "nostart (c0 # l) B" "nostart (c0 # l) C" "nostart (c0 # l) D"
    and c0: "\<not> is_space c0"
  shows "nostart (c0 # l) G"
proof -
  from re_match_sound [OF m] have "in_lang [Lit A, Spaces, Lit B, Spaces, Lit C, Spaces, Lit D] G"
    by simp
  from in_lang_group_shape [OF this] obtain w1 w2 w3 where G: "G = A @ w1 @ B @ w2 @ C @ w3 @ D"
    and w: "\<forall>c\<in>set w1. is_space c" "\<forall>c\<in>set w2. is_space c" "\<forall>c\<in>set w3. is_space c"
    by blast
  show ?thesis unfolding G
    by (intro nostart_append f nostart_spaces w c0)
qed

lemma nostart_sources_match:
  assumes m: "re_match [Lit A, Spaces, Lit B, Spaces, Lit C, Spaces, Lit D, Spaces, Lit E] G
      = Some (length G)"
    and f: "nostart (c0 # l) A" "nostart (c0 # l) B" "nostart (c0 # l) C" "nostart (c0 # l) D"
      "nostart (c0 # l) E"
    and c0: "\<not> is_space c0"
  shows "nostart (c0 # l) G"
proof -
  from re_match_sound [OF m]
  have "in_lang [Lit A, Spaces, Lit B, Spaces, Lit C, Spaces, Lit D, Spaces, Lit E] G"
    by simp
  from in_lang_sources_shape [OF this] obtain w1 w2 w3 w4
    where G: "G = A @ w1 @ B @ w2 @ C @ w3 @ D @ w4 @ E"
    and w: "\<forall>c\<in>set w1. is_space c" "\<forall>c\<in>set w2. is_space c" "\<forall>c\<in>set w3. is_space c"
      "\<forall>c\<in>set w4. is_space c"
    by blast
  show ?thesis unfolding G
    by (intro nostart_append f nostart_spaces w c0)
qed

lemma not_space_simps [simp]: "\<not> is_space (CHR ''/'')" "\<not> is_space (CHR ''1'')"
  by (simp_all add: is_space_def)

lemma components_match_free:
  assumes "re_match components_group_pattern G = Some (length G)"
  shows "nostart ''/* End PBXFileReference section */'' G"
    and "nostart ''1A000064 /* Sources */ = {'' G"
    and "nostart ''/* End PBXBuildFile section */'' G"
proof -
  note m = assms [unfolded components_group_pattern_def]
  show "nostart ''/* End PBXFileReference section */'' G"
    by (rule nostart_group_match [OF m]) code_simp+
  show "nostart ''1A000064 /* Sources */ = {'' G"
    by (rule nostart_group_match [OF m]) code_simp+
  show "nostart ''/* End PBXBuildFile section */'' G"
    by (rule nostart_group_match [OF m]) code_simp+
qed

lemma sources_match_free:
  assumes "re_match sources_pattern G = Some (length G)"
  shows "nostart ''1A000053 /* Components */ = {'' G"
    and "nostart ''/* End PBXFileReference section */'' G"
    and "nostart ''/* End PBXBuildFile section */'' G"
proof -
  note m = assms [unfolded sources_pattern_def]
  show "nostart ''1A000053 /* Components */ = {'' G"
    by (rule nostart_sources_match [OF m]) code_simp+
  show "nostart ''/* End PBXFileReference section */'' G"
    by (rule nostart_sources_match [OF m]) code_simp+
  show "nostart ''/* End PBXBuildFile section */'' G"
    by (rule nostart_sources_match [OF m]) code_simp+
qed

lemma components_sentinel_free:
  "nostart ''1A000053 /* Components */ = {'' (''/* End PBXBuildFile section */'' @ [nl])"
  "nostart ''1A000053 /* Components */ = {'' (''/* End PBXFileReference section */'' @ [nl])"
  by code_simp+

lemma foo_texts_free:
  fixes u1 u2 :: uuid
  defines "h1 \<equiv> take 6 (uuid24 u1)" and "h2 \<equiv> take 6 (uuid24 u2)"
  shows "nostart ''/* End PBXFileReference section */'' (group_child h1 ''Foo.x'')"
    and "nostart ''1A000064 /* Sources */ = {'' (group_child h1 ''Foo.x'')"
    and "nostart ''/* End PBXBuildFile section */'' (group_child h1 ''Foo.x'')"
    and "nostart ''1A000064 /* Sources */ = {''
           (file_ref_record h1 ''Foo.x'' ([dq] @ ''Pkg/Foo.x'' @ [dq]) @ [nl, nl])"
    and "nostart ''/* End PBXBuildFile section */''
           (file_ref_record h1 ''Foo.x'' ([dq] @ ''Pkg/Foo.x'' @ [dq]) @ [nl, nl])"
    and "nostart ''/* End PBXBuildFile section */'' (sources_child h2 ''Foo.x'')"
  unfolding h1_def h2_def take6_uuid24_list
  by (simp_all add: nostart_def group_child_def file_ref_record_def sources_child_def upt_rec)


lemma components_patch_canonical:
  fixes name pf :: string and u1 u2 :: uuid
  assumes a: "anchor_free ''1A000053 /* Components */ = {'' a0"
      "anchor_free ''1A000053 /* Components */ = {'' a1"
      "anchor_free ''1A000053 /* Components */ = {'' a2"
      "anchor_free ''1A000053 /* Components */ = {'' a3"
      "anchor_free ''1A000053 /* Components */ = {'' a4"
    and G: "re_match components_group_pattern G = Some (length G)"
    and SRC: "re_match sources_pattern SRC = Some (length SRC)"
    and GCf: "nostart ''/* End PBXFileReference section */'' (group_child (take 6 (uuid24 u1)) name)"
      "nostart ''1A000064 /* Sources */ = {'' (group_child (take 6 (uuid24 u1)) name)"
      "nostart ''/* End PBXBuildFile section */'' (group_child (take 6 (uuid24 u1)) name)"
    and Rf: "nostart ''1A000064 /* Sources */ = {''
        (file_ref_record (take 6 (uuid24 u1)) name pf @ [nl, nl])"
      "nostart ''/* End PBXBuildFile section */''
        (file_ref_record (take 6 (uuid24 u1)) name pf @ [nl, nl])"
    and SCf: "nostart ''/* End PBXBuildFile section */'' (sources_child (take 6 (uuid24 u2)) name)"
  shows "patch_file name pf components_group_pattern u1 u2
           (a0 @ ''/* End PBXBuildFile section */'' @ [nl] @ a1
            @ ''/* End PBXFileReference section */'' @ [nl] @ a2 @ G @ a3 @ SRC @ a4)
         = a0 @ (build_file_record (take 6 (uuid24 u2)) (''1A0000'' @ take 6 (uuid24 u1)) name
                 @ [nl, nl])
           @ ''/* End PBXBuildFile section */'' @ [nl] @ a1
           @ (file_ref_record (take 6 (uuid24 u1)) name pf @ [nl, nl])
           @ ''/* End PBXFileReference section */'' @ [nl] @ a2
           @ G @ group_child (take 6 (uuid24 u1)) name @ a3
           @ SRC @ sources_child (take 6 (uuid24 u2)) name @ a4"
proof (rule patch_file_canonical [OF _ _ _ G SRC a])
  show "components_group_pattern = Lit ''1A000053 /* Components */ = {'' #
      [Spaces, Lit ''isa = PBXGroup;'', Spaces,
       Lit ''children = ('', Spaces, Lit ''1A000035 /* SceneCard.swift */,'']"
    by (simp add: components_group_pattern_def)
  show "''1A000053 /* Components */ = {'' \<noteq> []" by simp
  show "local_pat components_group_pattern" by (rule simple_pat_local) simp
qed (rule components_match_free [OF G] sources_match_free [OF SRC] components_sentinel_free
      GCf Rf SCf)+

lemma minimal_manifest_chunks:
  "minimal_manifest = manifest_head @ ''/* End PBXBuildFile section */'' @ [nl] @ gap_refs
     @ ''/* End PBXFileReference section */'' @ [nl] @ gap_group @ group_anchor
     @ gap_sources @ sources_anchor @ manifest_tail"
  by (simp add: minimal_manifest_def manifest_refs_def manifest_group_def manifest_group_open_def
      manifest_sources_def gap_refs_def gap_group_def group_anchor_def gap_sources_def
      sources_anchor_def)

lemma manifest_gaps_free:
  "anchor_free ''1A000053 /* Components */ = {'' manifest_head"
  "anchor_free ''1A000053 /* Components */ = {'' gap_refs"
  "anchor_free ''1A000053 /* Components */ = {'' gap_group"
  "anchor_free ''1A000053 /* Components */ = {'' gap_sources"
  "anchor_free ''1A000053 /* Components */ = {'' manifest_tail"
  by code_simp+

lemma manifest_anchors_match:
  "re_match components_group_pattern group_anchor = Some (length group_anchor)"
  "re_match sources_pattern sources_anchor = Some (length sources_anchor)"
  by code_simp+

lemma manifest_patched_chunks:
  "manifest_head @ (BF @ [nl, nl]) @ ''/* End PBXBuildFile section */'' @ [nl] @ gap_refs
     @ (R @ [nl, nl]) @ ''/* End PBXFileReference section */'' @ [nl] @ gap_group @ group_anchor
     @ GC @ gap_sources @ sources_anchor @ SC @ manifest_tail
   = manifest_head @ BF @ [nl, nl] @ manifest_refs @ R @ [nl, nl] @ manifest_group @ GC
     @ manifest_sources @ SC @ manifest_tail"
  by (simp add: manifest_refs_def manifest_group_def manifest_group_open_def
      manifest_sources_def gap_refs_def gap_group_def group_anchor_def gap_sources_def
      sources_anchor_def)




section \<open>Unmatched anchors\<close>




section \<open>Repeated requests\<close>




section \<open>The loop of add_to_build_phase.py\<close>













section \<open>Identifiers\<close>

text \<open>
  Claim C5 (amended). The identifier the scripts allocate for a new entry is
  \<^verbatim>\<open>1A0000\<close> followed by the first six upper-case hexadecimal digits of a freshly
  drawn UUID: twelve characters that the 24 leading bits of the draw fix, and the
  document does not. Two draws give the same identifier exactly when their 24 leading
  bits agree. No check against the document is made: in every document that holds the
  comment \<^verbatim>\<open>/* End PBXFileReference section */\<close>, add_cost_metrics.py inserts the
  file-reference record under that identifier, whatever identifiers the document holds.
\<close>

theorem identifier_is_uuid_prefix_unchecked:
  "length (''1A0000'' @ take 6 (uuid24 u1)) = 12
   \<and> set (take 6 (uuid24 u1)) \<subseteq> set ''0123456789ABCDEF''
   \<and> (take 6 (uuid24 u1) = take 6 (uuid24 v) \<longleftrightarrow> drop_bit 104 u1 = drop_bit 104 v)
   \<and> (sublist ''/* End PBXFileReference section */'' doc \<longrightarrow>
        sublist (file_ref_record (take 6 (uuid24 u1)) ''CostMetricsManager.swift''
                   ''CostMetricsManager.swift'')
          (add_cost_metrics u1 u2 doc))"
proof (intro conjI impI)
  show "length (''1A0000'' @ take 6 (uuid24 u1)) = 12"
    using length_take6_uuid24 [of u1] by simp
  show "set (take 6 (uuid24 u1)) \<subseteq> set ''0123456789ABCDEF''" by (rule take6_uuid24_hex)
  show "take 6 (uuid24 u1) = take 6 (uuid24 v) \<longleftrightarrow> drop_bit 104 u1 = drop_bit 104 v"
    by (rule take6_uuid24_eq_iff)
  show "sublist (file_ref_record (take 6 (uuid24 u1)) ''CostMetricsManager.swift''
                   ''CostMetricsManager.swift'') (add_cost_metrics u1 u2 doc)"
    if "sublist ''/* End PBXFileReference section */'' doc"
    using that by (rule add_cost_metrics_inserts_record)
qed

text \<open>An instance: the document already has a record \<^verbatim>\<open>1A0000ABCDEF\<close> and the draw
  begins with \<^verbatim>\<open>ABCDEF\<close>.\<close>

theorem identifier_is_uuid_prefix_unchecked_witness:
  "sublist (file_ref_record (take 6 (uuid24 0xABCDEF01234540008000000000000000))
             ''CostMetricsManager.swift'' ''CostMetricsManager.swift'')
     (add_cost_metrics 0xABCDEF01234540008000000000000000 0x12345601234540008000000000000000
       (''1A0000ABCDEF /* Old.swift */ = {isa = PBXFileReference; path = Old.swift; };'' @ [nl]
        @ ''/* End PBXFileReference section */''))
   \<and> take 6 (uuid24 0xABCDEF01234540008000000000000000) = ''ABCDEF''"
proof -
  let ?d = "''1A0000ABCDEF /* Old.swift */ = {isa = PBXFileReference; path = Old.swift; };'' @ [nl]
        @ ''/* End PBXFileReference section */''"
  have h: "sublist ''/* End PBXFileReference section */'' ?d" by code_simp
  have e: "take 6 (uuid24 0xABCDEF01234540008000000000000000) = ''ABCDEF''" by code_simp
  show ?thesis
    by (intro conjI e
        identifier_is_uuid_prefix_unchecked [of "0xABCDEF01234540008000000000000000" 0 ?d
          "0x12345601234540008000000000000000",
          THEN conjunct2, THEN conjunct2, THEN conjunct2, THEN mp, OF h])
qed

text \<open>
  Claim C5 as stated fails: the document below holds the identifier
  \<^verbatim>\<open>1A0000ABCDEF\<close>, the UUID drawn begins with \<^verbatim>\<open>ABCDEF\<close>, and the new record gets
  the identifier of the old one.
\<close>

theorem identifier_collision_counterexample:
  "add_cost_metrics 0xABCDEF01234540008000000000000000 0x12345601234540008000000000000000
     (''1A0000ABCDEF /* Old.swift */ = {isa = PBXFileReference; path = Old.swift; };'' @ [nl]
      @ ''/* End PBXFileReference section */'')
   = ''1A0000ABCDEF /* Old.swift */ = {isa = PBXFileReference; path = Old.swift; };'' @ [nl]
     @ [nl, tab, tab] @ ''1A0000ABCDEF /* CostMetricsManager.swift */ = {isa = PBXFileReference; lastKnownFileType = sourcecode.swift; path = CostMetricsManager.swift; sourceTree = ''
     @ [dq] @ ''<group>'' @ [dq] @ ''; };'' @ [nl, nl] @ ''/* End PBXFileReference section */''"
  by code_simp

section \<open>Insertions behind the build-file record 1A000019\<close>



section \<open>Round trip of name and path\<close>







section \<open>Braces and section comments\<close>






section \<open>The four insertions\<close>




section \<open>The scenario of the minimal manifest\<close>

text \<open>
  Claim C6 (amended). The descriptor with name \<^verbatim>\<open>Foo.x\<close> and path \<^verbatim>\<open>Pkg/Foo.x\<close> is added
  to the minimal manifest by the edits of add_splash_screen.py (\<^const>\<open>patch_file\<close> with the
  Components group pattern, the path written in quotes as that script writes it). For all
  UUIDs drawn, the output is the manifest with four new records that carry two
  identifiers: the file-reference record, the group child and the \<^verbatim>\<open>fileRef\<close> field of
  the build-file record carry the identifier made from the first UUID, the build-file
  record and the Sources entry the one made from the second UUID. The entries
  \<^verbatim>\<open>SceneCard.swift\<close> of the group and \<^verbatim>\<open>ContentView.swift in Sources\<close> of the build phase are
  unchanged and first in their lists: each new entry stands right after them.
\<close>

theorem scenario_two_identifiers:
  "patch_file ''Foo.x'' ([dq] @ ''Pkg/Foo.x'' @ [dq]) components_group_pattern u1 u2
     minimal_manifest
   = manifest_head
     @ build_file_record (take 6 (uuid24 u2)) (''1A0000'' @ take 6 (uuid24 u1)) ''Foo.x''
     @ [nl, nl] @ manifest_refs
     @ file_ref_record (take 6 (uuid24 u1)) ''Foo.x'' ([dq] @ ''Pkg/Foo.x'' @ [dq])
     @ [nl, nl] @ manifest_group
     @ group_child (take 6 (uuid24 u1)) ''Foo.x''
     @ manifest_sources
     @ sources_child (take 6 (uuid24 u2)) ''Foo.x''
     @ manifest_tail"
  unfolding minimal_manifest_chunks
  by (rule trans [OF components_patch_canonical [OF manifest_gaps_free manifest_anchors_match
          foo_texts_free] manifest_patched_chunks])

text \<open>
  Claim C6 as stated, with a single identifier shared by the four new records, fails for
  two UUIDs that begin with \<^verbatim>\<open>ABCDEF\<close> and \<^verbatim>\<open>123456\<close>: the Sources entry and the build-file
  record are written under \<^verbatim>\<open>1A0000123456\<close>, the file-reference record and the group child
  under \<^verbatim>\<open>1A0000ABCDEF\<close>, and neither entry holds the digits of the other.
\<close>

theorem scenario_shared_identifier_counterexample:
  "patch_file ''Foo.x'' ([dq] @ ''Pkg/Foo.x'' @ [dq]) components_group_pattern
       0xABCDEF00000000000000000000000000 0x12345600000000000000000000000000 minimal_manifest
     = manifest_head
       @ build_file_record ''123456'' ''1A0000ABCDEF'' ''Foo.x''
       @ [nl, nl] @ manifest_refs
       @ file_ref_record ''ABCDEF'' ''Foo.x'' ([dq] @ ''Pkg/Foo.x'' @ [dq])
       @ [nl, nl] @ manifest_group
       @ group_child ''ABCDEF'' ''Foo.x''
       @ manifest_sources
       @ sources_child ''123456'' ''Foo.x''
       @ manifest_tail
   \<and> sources_child ''123456'' ''Foo.x'' = [nl, tab, tab, tab] @ ''1A0000123456 /* Foo.x in Sources */,''
   \<and> group_child ''ABCDEF'' ''Foo.x'' = [nl, tab, tab, tab] @ ''1A0000ABCDEF /* Foo.x */,''
   \<and> \<not> sublist ''ABCDEF'' (sources_child ''123456'' ''Foo.x'')
   \<and> \<not> sublist ''123456'' (group_child ''ABCDEF'' ''Foo.x'')"
  by code_simp

section \<open>Determinism\<close>

lemma build_phase_step_ids:
  "take 6 (uuid24 u) = take 6 (uuid24 v) \<Longrightarrow> build_phase_step u f s = build_phase_step v f s"
  by (simp add: build_phase_step_def Let_def)

lemma build_phase_loop_ids:
  "\<forall>j. i \<le> j \<and> j < i + length fs \<longrightarrow> take 6 (uuid24 (g1 j)) = take 6 (uuid24 (g2 j)) \<Longrightarrow>
   build_phase_loop g1 i fs s = build_phase_loop g2 i fs s"
proof (induction fs arbitrary: i s)
  case Nil
  then show ?case by simp
next
  case (Cons f fs)
  from Cons.prems have "take 6 (uuid24 (g1 i)) = take 6 (uuid24 (g2 i))" by simp
  then have "build_phase_step (g1 i) f s = build_phase_step (g2 i) f s"
    by (rule build_phase_step_ids)
  moreover have "build_phase_loop g1 (Suc i) fs t = build_phase_loop g2 (Suc i) fs t" for t
    using Cons.prems by (intro Cons.IH) simp
  ultimately show ?case by simp
qed

lemma add_to_build_phase_ids:
  "same_ids 5 g1 g2 \<Longrightarrow> add_to_build_phase g1 s = add_to_build_phase g2 s"
  unfolding add_to_build_phase_def
  by (rule build_phase_loop_ids) (simp add: same_ids_def build_phase_files_def)

lemma module_step_ids:
  "take 6 (uuid24 u1) = take 6 (uuid24 v1) \<Longrightarrow> take 6 (uuid24 u2) = take 6 (uuid24 v2) \<Longrightarrow>
   module_step u1 u2 p s = module_step v1 v2 p s"
  by (simp add: module_step_def module_file_ref_section_def Let_def)

lemma module_loop_ids:
  "\<forall>j. 2 * i \<le> j \<and> j < 2 * (i + length ps) \<longrightarrow> take 6 (uuid24 (g1 j)) = take 6 (uuid24 (g2 j)) \<Longrightarrow>
   module_loop g1 i ps s = module_loop g2 i ps s"
proof (induction ps arbitrary: i s)
  case Nil
  then show ?case by simp
next
  case (Cons p ps)
  from Cons.prems have "take 6 (uuid24 (g1 (2 * i))) = take 6 (uuid24 (g2 (2 * i)))"
    and "take 6 (uuid24 (g1 (2 * i + 1))) = take 6 (uuid24 (g2 (2 * i + 1)))" by simp_all
  then have "module_step (g1 (2 * i)) (g1 (2 * i + 1)) p s = module_step (g2 (2 * i)) (g2 (2 * i + 1)) p s"
    by (rule module_step_ids)
  moreover have "module_loop g1 (Suc i) ps t = module_loop g2 (Suc i) ps t" for t
    using Cons.prems by (intro Cons.IH) simp
  ultimately show ?case by simp
qed

lemma add_cost_metrics_ids:
  "take 6 (uuid24 u1) = take 6 (uuid24 v1) \<Longrightarrow> take 6 (uuid24 u2) = take 6 (uuid24 v2) \<Longrightarrow>
   add_cost_metrics u1 u2 s = add_cost_metrics v1 v2 s"
  by (simp add: add_cost_metrics_def Let_def)

lemma add_splash_screen_ids:
  "take 6 (uuid24 u1) = take 6 (uuid24 v1) \<Longrightarrow> take 6 (uuid24 u2) = take 6 (uuid24 v2) \<Longrightarrow>
   add_splash_screen u1 u2 s = add_splash_screen v1 v2 s"
  by (simp add: add_splash_screen_def Let_def)

lemma add_pipeline_ids:
  "take 6 (uuid24 u1) = take 6 (uuid24 v1) \<Longrightarrow> take 6 (uuid24 u2) = take 6 (uuid24 v2) \<Longrightarrow>
   add_pipeline u1 u2 s = add_pipeline v1 v2 s"
  by (simp add: add_pipeline_def Let_def)

text \<open>The part of add_files_to_project.py before its loop (lines 25-45).\<close>

lemma add_files_to_project_head_ids:
  assumes "take 6 (uuid24 u1) = take 6 (uuid24 v1)" "take 6 (uuid24 u2) = take 6 (uuid24 v2)"
    and "\<And>t. module_loop g1 1 (tl files_to_add) t = module_loop g2 1 (tl files_to_add) t"
    and "g1 0 = u1" "g1 1 = u2" "g2 0 = v1" "g2 1 = v2"
  shows "add_files_to_project g1 s = add_files_to_project g2 s"
  unfolding add_files_to_project_def Let_def assms(4-7) assms(1,2) assms(3) ..

lemma add_files_to_project_ids:
  assumes "same_ids 8 g1 g2"
  shows "add_files_to_project g1 s = add_files_to_project g2 s"
proof (rule add_files_to_project_head_ids)
  from assms show "take 6 (uuid24 (g1 0)) = take 6 (uuid24 (g2 0))"
    and "take 6 (uuid24 (g1 1)) = take 6 (uuid24 (g2 1))" by (simp_all add: same_ids_def)
  show "module_loop g1 1 (tl files_to_add) t = module_loop g2 1 (tl files_to_add) t" for t
    using assms by (intro module_loop_ids) (simp add: same_ids_def files_to_add_def)
qed (rule refl)+

lemma written_rewrite:
  "disk1 project_file = disk2 project_file \<Longrightarrow> (\<And>s. f1 s = f2 s) \<Longrightarrow>
   written (rewrite_project f1 disk1) = written (rewrite_project f2 disk2)"
  by (simp add: written_def rewrite_project_def split: option.splits)

text \<open>
  Claim C10. What a script leaves in the project file (or the error it raises) is a
  function of the text it read and of the six-digit identifiers it generated: two runs on
  disks that agree on the project file, with UUID draws that agree on the identifiers,
  leave identical text, whatever else is on the disks and whatever the other digits of
  the UUIDs are. add_cost_metrics.py, add_splash_screen.py and add_pipeline.py draw two
  UUIDs, add_to_build_phase.py five and add_files_to_project.py eight.
\<close>

theorem output_depends_on_text_and_ids_only:
  assumes "disk1 project_file = disk2 project_file"
  shows "(same_ids 2 g1 g2 \<longrightarrow>
           written (run_add_cost_metrics g1 disk1) = written (run_add_cost_metrics g2 disk2)
         \<and> written (run_add_splash_screen g1 disk1) = written (run_add_splash_screen g2 disk2)
         \<and> written (run_add_pipeline g1 disk1) = written (run_add_pipeline g2 disk2))
       \<and> (same_ids 5 g1 g2 \<longrightarrow>
           written (run_add_to_build_phase g1 disk1) = written (run_add_to_build_phase g2 disk2))
       \<and> (same_ids 8 g1 g2 \<longrightarrow>
           written (run_add_files_to_project g1 disk1) = written (run_add_files_to_project g2 disk2))"
proof (intro conjI impI)
  assume "same_ids 2 g1 g2"
  then have ids: "take 6 (uuid24 (g1 0)) = take 6 (uuid24 (g2 0))"
    "take 6 (uuid24 (g1 1)) = take 6 (uuid24 (g2 1))" by (simp_all add: same_ids_def)
  show "written (run_add_cost_metrics g1 disk1) = written (run_add_cost_metrics g2 disk2)"
    unfolding run_add_cost_metrics_def using assms
    by (rule written_rewrite) (rule add_cost_metrics_ids [OF ids])
  show "written (run_add_splash_screen g1 disk1) = written (run_add_splash_screen g2 disk2)"
    unfolding run_add_splash_screen_def using assms
    by (rule written_rewrite) (rule add_splash_screen_ids [OF ids])
  show "written (run_add_pipeline g1 disk1) = written (run_add_pipeline g2 disk2)"
    unfolding run_add_pipeline_def using assms
    by (rule written_rewrite) (rule add_pipeline_ids [OF ids])
next
  assume "same_ids 5 g1 g2"
  then show "written (run_add_to_build_phase g1 disk1) = written (run_add_to_build_phase g2 disk2)"
    unfolding run_add_to_build_phase_def
    by (intro written_rewrite assms add_to_build_phase_ids)
next
  assume "same_ids 8 g1 g2"
  then show "written (run_add_files_to_project g1 disk1) = written (run_add_files_to_project g2 disk2)"
    unfolding run_add_files_to_project_def
    by (intro written_rewrite assms add_files_to_project_ids)
qed

text \<open>An instance: two disks that differ in another file, two draws that differ in their
  low digits.\<close>

theorem output_depends_on_text_and_ids_only_witness:
  "written (run_add_cost_metrics (\<lambda>i. 0xABCDEF01234540008000000000000001)
              (Map.empty(project_file \<mapsto> ''/* End PBXBuildFile section */'')))
   = written (run_add_cost_metrics (\<lambda>i. 0xABCDEF0FFFFF4FFF8000000000000002)
              (Map.empty(project_file \<mapsto> ''/* End PBXBuildFile section */'', ''notes.txt'' \<mapsto> ''x'')))
   \<and> written (run_add_to_build_phase (\<lambda>i. 0xABCDEF01234540008000000000000001)
              (Map.empty(project_file \<mapsto> ''/* End PBXBuildFile section */'')))
   = written (run_add_to_build_phase (\<lambda>i. 0xABCDEF0FFFFF4FFF8000000000000002)
              (Map.empty(project_file \<mapsto> ''/* End PBXBuildFile section */'', ''notes.txt'' \<mapsto> ''x'')))
   \<and> written (run_add_files_to_project (\<lambda>i. 0xABCDEF01234540008000000000000001)
              (Map.empty(project_file \<mapsto> ''/* End PBXBuildFile section */'')))
   = written (run_add_files_to_project (\<lambda>i. 0xABCDEF0FFFFF4FFF8000000000000002)
              (Map.empty(project_file \<mapsto> ''/* End PBXBuildFile section */'', ''notes.txt'' \<mapsto> ''x'')))"
proof -
  have ne: "''notes.txt'' \<noteq> project_file" by (simp add: project_file_def)
  have "take 6 (uuid24 0xABCDEF01234540008000000000000001)
      = take 6 (uuid24 0xABCDEF0FFFFF4FFF8000000000000002)" by code_simp
  then have ids: "same_ids n (\<lambda>i. 0xABCDEF01234540008000000000000001)
      (\<lambda>i. 0xABCDEF0FFFFF4FFF8000000000000002)" for n
    by (simp add: same_ids_def)
  show ?thesis
    using output_depends_on_text_and_ids_only
      [of "Map.empty(project_file \<mapsto> ''/* End PBXBuildFile section */'')"
          "Map.empty(project_file \<mapsto> ''/* End PBXBuildFile section */'', ''notes.txt'' \<mapsto> ''x'')"
          "\<lambda>i. 0xABCDEF01234540008000000000000001" "\<lambda>i. 0xABCDEF0FFFFF4FFF8000000000000002"]
      ids ne
    by simp
qed

end
